theory Spec2Isabelle
  imports
    Main
    "HOL-Library.Word"
    "HOL-Library.Char_ord"
    "HOL-Library.List_Lexorder"
begin

unbundle bit_operations_syntax

section \<open>Duplicate-Files-Finder: an embedding of \<^verbatim>\<open>src/main.py\<close>\<close>

text \<open>
  Python strings are modelled as \<^typ>\<open>string\<close> (a list of characters). With
  \<^verbatim>\<open>Char_ord\<close> and \<^verbatim>\<open>List_Lexorder\<close> the order on strings is the
  lexicographic order on character codes, which is the order of Python's \<^verbatim>\<open>sorted\<close>
  on \<^verbatim>\<open>str\<close>. The bytes of a file are \<^typ>\<open>8 word\<close>.

  A Python \<^verbatim>\<open>dict[str, list[str]]\<close> keeps its keys in insertion order, and the
  program prints it with \<^verbatim>\<open>json.dumps\<close>, so the order is observable. The grouping
  table is therefore an association list, oldest key first.
\<close>

type_synonym byte = "8 word"

type_synonym table = "(string \<times> string list) list"

subsection \<open>The library: \<^verbatim>\<open>hashlib.md5\<close>\<close>

text \<open>
  MD5 as RFC 1321 defines it: the message is padded to a multiple of 64 bytes (a byte
  \<^verbatim>\<open>0x80\<close>, zeros, the bit length as 64 bits little endian), and each block of 16
  little-endian 32-bit words goes through 64 steps on a state of four 32-bit words.
\<close>

definition md5_K :: "32 word list" where
  "md5_K =
    [0xd76aa478, 0xe8c7b756, 0x242070db, 0xc1bdceee,
     0xf57c0faf, 0x4787c62a, 0xa8304613, 0xfd469501,
     0x698098d8, 0x8b44f7af, 0xffff5bb1, 0x895cd7be,
     0x6b901122, 0xfd987193, 0xa679438e, 0x49b40821,
     0xf61e2562, 0xc040b340, 0x265e5a51, 0xe9b6c7aa,
     0xd62f105d, 0x02441453, 0xd8a1e681, 0xe7d3fbc8,
     0x21e1cde6, 0xc33707d6, 0xf4d50d87, 0x455a14ed,
     0xa9e3e905, 0xfcefa3f8, 0x676f02d9, 0x8d2a4c8a,
     0xfffa3942, 0x8771f681, 0x6d9d6122, 0xfde5380c,
     0xa4beea44, 0x4bdecfa9, 0xf6bb4b60, 0xbebfbc70,
     0x289b7ec6, 0xeaa127fa, 0xd4ef3085, 0x04881d05,
     0xd9d4d039, 0xe6db99e5, 0x1fa27cf8, 0xc4ac5665,
     0xf4292244, 0x432aff97, 0xab9423a7, 0xfc93a039,
     0x655b59c3, 0x8f0ccc92, 0xffeff47d, 0x85845dd1,
     0x6fa87e4f, 0xfe2ce6e0, 0xa3014314, 0x4e0811a1,
     0xf7537e82, 0xbd3af235, 0x2ad7d2bb, 0xeb86d391]"

definition md5_S :: "nat list" where
  "md5_S =
    [7, 12, 17, 22, 7, 12, 17, 22, 7, 12, 17, 22, 7, 12, 17, 22,
     5, 9, 14, 20, 5, 9, 14, 20, 5, 9, 14, 20, 5, 9, 14, 20,
     4, 11, 16, 23, 4, 11, 16, 23, 4, 11, 16, 23, 4, 11, 16, 23,
     6, 10, 15, 21, 6, 10, 15, 21, 6, 10, 15, 21, 6, 10, 15, 21]"

type_synonym md5_state = "32 word \<times> 32 word \<times> 32 word \<times> 32 word"

definition md5_init :: md5_state where
  "md5_init = (0x67452301, 0xefcdab89, 0x98badcfe, 0x10325476)"

definition md5_step :: "32 word list \<Rightarrow> nat \<Rightarrow> md5_state \<Rightarrow> md5_state" where
  "md5_step M i st =
     (case st of (A, B, C, D) \<Rightarrow>
        let F = (if i < 16 then (B AND C) OR (NOT B AND D)
                 else if i < 32 then (D AND B) OR (NOT D AND C)
                 else if i < 48 then B XOR C XOR D
                 else C XOR (B OR NOT D));
            g = (if i < 16 then i
                 else if i < 32 then (5 * i + 1) mod 16
                 else if i < 48 then (3 * i + 5) mod 16
                 else (7 * i) mod 16);
            F' = F + A + md5_K ! i + M ! g
        in (D, B + word_rotl (md5_S ! i) F', B, C))"

fun le_word32 :: "byte list \<Rightarrow> 32 word" where
  "le_word32 [] = 0"
| "le_word32 (b # bs) = ucast b OR push_bit 8 (le_word32 bs)"

fun chunks_of :: "nat \<Rightarrow> 'a list \<Rightarrow> 'a list list" where
  "chunks_of n [] = []"
| "chunks_of n (x # xs) =
     (if n = 0 then [] else take n (x # xs) # chunks_of n (drop n (x # xs)))"

definition md5_block :: "md5_state \<Rightarrow> byte list \<Rightarrow> md5_state" where
  "md5_block st block =
     (case st of (a0, b0, c0, d0) \<Rightarrow>
        case fold (md5_step (map le_word32 (chunks_of 4 block))) [0..<64] st of
          (A, B, C, D) \<Rightarrow> (a0 + A, b0 + B, c0 + C, d0 + D))"

definition word64_bytes :: "64 word \<Rightarrow> byte list" where
  "word64_bytes w = map (\<lambda>i. ucast (drop_bit (8 * i) w)) [0..<8]"

definition md5_pad :: "byte list \<Rightarrow> byte list" where
  "md5_pad msg =
     msg @ [0x80] @ replicate ((119 - length msg mod 64) mod 64) 0
       @ word64_bytes (8 * of_nat (length msg))"

definition word32_bytes :: "32 word \<Rightarrow> byte list" where
  "word32_bytes w = map (\<lambda>i. ucast (drop_bit (8 * i) w)) [0..<4]"

definition md5 :: "byte list \<Rightarrow> byte list" where
  "md5 msg =
     (case fold (\<lambda>block st. md5_block st block) (chunks_of 64 (md5_pad msg)) md5_init of
        (a, b, c, d) \<Rightarrow> word32_bytes a @ word32_bytes b @ word32_bytes c @ word32_bytes d)"

text \<open>\<^verbatim>\<open>hexdigest\<close> prints each byte of the digest as two lowercase hexadecimal digits.\<close>

definition hex_digit :: "nat \<Rightarrow> char" where
  "hex_digit n = ''0123456789abcdef'' ! (n mod 16)"

definition hex_byte :: "byte \<Rightarrow> string" where
  "hex_byte b = [hex_digit (unat b div 16), hex_digit (unat b mod 16)]"

definition hexstr :: "byte list \<Rightarrow> string" where
  "hexstr bs = concat (map hex_byte bs)"

text \<open>
  The hash object. \<^verbatim>\<open>hashlib\<close> documents that repeated calls of
  \<^verbatim>\<open>update\<close> are equivalent to one call with the concatenation of the arguments,
  so the state of the object is the sequence of bytes fed so far.
\<close>

type_synonym hash_obj = "byte list"

definition hashlib_md5 :: hash_obj where
  "hashlib_md5 = []"

definition update :: "hash_obj \<Rightarrow> byte list \<Rightarrow> hash_obj" where
  "update hash_obj chunk = hash_obj @ chunk"

definition hexdigest :: "hash_obj \<Rightarrow> string" where
  "hexdigest hash_obj = hexstr (md5 hash_obj)"

subsection \<open>\<^verbatim>\<open>get_file_hash\<close> (lines 41-74)\<close>

text \<open>
  The exceptions the function can end with; it has no handler, so an exception of
  \<^verbatim>\<open>open\<close> or of \<^verbatim>\<open>f.read\<close> is its result. An \<^verbatim>\<open>OSError\<close> carries its
  \<^verbatim>\<open>filename\<close> attribute: \<^verbatim>\<open>open\<close> sets it to the path, a failing \<^verbatim>\<open>read\<close>
  leaves it \<^verbatim>\<open>None\<close>.
\<close>

datatype py_exception = OSError "string option" | OverflowError | ValueError | MemoryError

text \<open>
  What is behind a path: a file that \<^verbatim>\<open>open(file_path, 'rb')\<close> refuses (it does not
  exist, is a directory, or may not be read), a file whose bytes can all be read, or a file
  that opens and gives the bytes listed, after which the stream fails instead of ending
  (a device error).
\<close>

datatype file_node = CannotOpen | Readable "byte list" | ReadFails "byte list"

text \<open>
  The environment of the reads: the file behind each path, and the size of the largest
  byte string the allocator grants (\<^verbatim>\<open>f.read(n)\<close> allocates its result of \<open>n\<close> bytes
  before it reads).
\<close>

record file_store =
  file_at :: "string \<Rightarrow> file_node"
  max_alloc :: nat

text \<open>
  \<^verbatim>\<open>f.read(n)\<close> of a buffered binary stream (CPython, 64 bit), on the bytes not yet
  read: the chunk returned and the bytes left, or the exception.
  \<^item> \<open>n < -1\<close> raises \<^verbatim>\<open>ValueError\<close>; \<open>n = -1\<close> reads to the end of the stream;
  \<^item> \<open>n\<close> from \<open>2^63 - 33\<close> on raises \<^verbatim>\<open>OverflowError\<close> (no byte string of that size,
    or no index-sized integer);
  \<^item> a size above \<open>limit\<close> raises \<^verbatim>\<open>MemoryError\<close>;
  \<^item> on a stream that fails (\<open>faulty\<close>), a read that needs more bytes than the stream
    gives raises \<^verbatim>\<open>OSError\<close> with no file name;
  \<^item> otherwise the next \<open>n\<close> bytes are returned, fewer only at the end of the stream, and
    none for \<open>n = 0\<close>.
\<close>

definition f_read ::
  "nat \<Rightarrow> bool \<Rightarrow> int \<Rightarrow> byte list \<Rightarrow> py_exception + byte list \<times> byte list" where
  "f_read limit faulty n rest =
     (if n < - 1 then Inl ValueError
      else if n = - 1 then
        (if limit < length rest then Inl MemoryError
         else if faulty then Inl (OSError None)
         else Inr (rest, []))
      else if 2 ^ 63 - 33 \<le> n then Inl OverflowError
      else if int limit < n then Inl MemoryError
      else if faulty \<and> int (length rest) < n then Inl (OSError None)
      else Inr (take (nat n) rest, drop (nat n) rest))"

text \<open>The \<^verbatim>\<open>while chunk:\<close> loop of lines 66-69; an empty chunk is falsy.\<close>

function read_loop ::
  "nat \<Rightarrow> bool \<Rightarrow> int \<Rightarrow> hash_obj \<Rightarrow> byte list \<Rightarrow> byte list \<Rightarrow> py_exception + hash_obj"
  where
  "read_loop limit faulty chunk_size hash_obj chunk rest =
     (if chunk \<noteq> [] then
        (case f_read limit faulty chunk_size rest of
           Inl e \<Rightarrow> Inl e
         | Inr nxt \<Rightarrow>
             read_loop limit faulty chunk_size (update hash_obj chunk) (fst nxt) (snd nxt))
      else Inr hash_obj)"
  by pat_completeness auto
termination
proof (relation "measure (\<lambda>(limit, faulty, chunk_size, hash_obj, chunk, rest).
                    length chunk + length rest)")
  show "wf (measure (\<lambda>(limit, faulty, chunk_size, hash_obj, chunk, rest).
                    length chunk + length rest))"
    by simp
next
  fix limit :: nat and faulty :: bool and chunk_size :: int and hash_obj :: hash_obj
    and chunk rest :: "byte list" and nxt :: "byte list \<times> byte list"
  assume "chunk \<noteq> []" and "f_read limit faulty chunk_size rest = Inr nxt"
  then have "fst nxt @ snd nxt = rest" and "0 < length chunk"
    by (auto simp: f_read_def split: if_splits)
  then have "length (fst nxt) + length (snd nxt) < length chunk + length rest"
    by (metis add.commute length_append less_add_same_cancel2)
  then show "((limit, faulty, chunk_size, update hash_obj chunk, fst nxt, snd nxt),
        (limit, faulty, chunk_size, hash_obj, chunk, rest))
      \<in> measure (\<lambda>(limit, faulty, chunk_size, hash_obj, chunk, rest).
                    length chunk + length rest)"
    by (simp add: case_prod_beta)
qed

text \<open>The body of the \<^verbatim>\<open>with\<close> block (lines 60-72), on the stream of an opened file.\<close>

definition hash_stream :: "nat \<Rightarrow> bool \<Rightarrow> int \<Rightarrow> byte list \<Rightarrow> py_exception + string" where
  "hash_stream limit faulty chunk_size content =
     (case f_read limit faulty chunk_size content of
        Inl e \<Rightarrow> Inl e
      | Inr first \<Rightarrow>
          (case read_loop limit faulty chunk_size hashlib_md5 (fst first) (snd first) of
             Inl e \<Rightarrow> Inl e
           | Inr hash_obj \<Rightarrow> Inr (hexdigest hash_obj)))"

definition get_file_hash :: "file_store \<Rightarrow> string \<Rightarrow> int \<Rightarrow> py_exception + string" where
  "get_file_hash fs file_path chunk_size =
     (case file_at fs file_path of
        CannotOpen \<Rightarrow> Inl (OSError (Some file_path))
      | Readable content \<Rightarrow> hash_stream (max_alloc fs) False chunk_size content
      | ReadFails content \<Rightarrow> hash_stream (max_alloc fs) True chunk_size content)"

subsection \<open>\<^verbatim>\<open>group_files_by_hash\<close> (lines 12-38)\<close>

text \<open>\<^verbatim>\<open>file_hash not in files_by_hash\<close>: the key test of the dictionary.\<close>

definition dict_has_key :: "table \<Rightarrow> string \<Rightarrow> bool" where
  "dict_has_key files_by_hash file_hash = (file_hash \<in> set (map fst files_by_hash))"

text \<open>\<^verbatim>\<open>files_by_hash[file_hash].append(file_path)\<close>: the list stored under an
  existing key grows at its end; the key keeps its place.\<close>

fun dict_append :: "table \<Rightarrow> string \<Rightarrow> string \<Rightarrow> table" where
  "dict_append [] file_hash file_path = []"
| "dict_append ((k, paths) # rest) file_hash file_path =
     (if k = file_hash then (k, paths @ [file_path]) # rest
      else (k, paths) # dict_append rest file_hash file_path)"

text \<open>The body of the \<^verbatim>\<open>for\<close> loop (lines 32-36). A new key is inserted last.\<close>

definition group_step :: "table \<Rightarrow> string \<times> string \<Rightarrow> table" where
  "group_step files_by_hash pair =
     (case pair of (file_hash, file_path) \<Rightarrow>
        if \<not> dict_has_key files_by_hash file_hash
        then files_by_hash @ [(file_hash, [file_path])]
        else dict_append files_by_hash file_hash file_path)"

text \<open>
  The argument of \<^verbatim>\<open>group_files_by_hash\<close> is a generator
  (\<^verbatim>\<open>file_hashes_with_paths\<close>, line 208): each item is computed when the loop asks for
  it, and computing it may raise. An item is therefore either the exception or the pair;
  an exception leaves the loop and the function, and the dictionary built so far is lost.
\<close>

fun group_loop :: "table \<Rightarrow> (py_exception + string \<times> string) list \<Rightarrow> py_exception + table" where
  "group_loop files_by_hash [] = Inr files_by_hash"
| "group_loop files_by_hash (Inl e # files) = Inl e"
| "group_loop files_by_hash (Inr pair # files) = group_loop (group_step files_by_hash pair) files"

definition group_files_by_hash :: "(py_exception + string \<times> string) list \<Rightarrow> py_exception + table" where
  "group_files_by_hash files = group_loop [] files"

subsection \<open>The library: strings, \<^verbatim>\<open>os.path.join\<close> and \<^verbatim>\<open>os.walk\<close>\<close>

text \<open>\<^verbatim>\<open>s.startswith(pre)\<close>, \<^verbatim>\<open>s.endswith(c)\<close> for one character, and
  \<^verbatim>\<open>sub in s\<close> (substring test) of Python's \<^verbatim>\<open>str\<close>.\<close>

fun startswith :: "string \<Rightarrow> string \<Rightarrow> bool" where
  "startswith s [] = True"
| "startswith [] (c # pre) = False"
| "startswith (x # s) (c # pre) = (x = c \<and> startswith s pre)"

definition endswith_char :: "string \<Rightarrow> char \<Rightarrow> bool" where
  "endswith_char s c = (s \<noteq> [] \<and> last s = c)"

fun str_in :: "string \<Rightarrow> string \<Rightarrow> bool" where
  "str_in sub [] = (sub = [])"
| "str_in sub (x # s) = (startswith (x # s) sub \<or> str_in sub s)"

text \<open>
  \<^verbatim>\<open>posixpath.join(a, b)\<close> for two components: an absolute \<open>b\<close> replaces \<open>a\<close>;
  otherwise \<open>b\<close> is appended, after a separator unless \<open>a\<close> is empty or ends with one.
\<close>

definition os_path_join :: "string \<Rightarrow> string \<Rightarrow> string" where
  "os_path_join a b =
     (if startswith b ''/'' then b
      else if a = [] \<or> endswith_char a CHR ''/'' then a @ b
      else a @ ''/'' @ b)"

text \<open>\<^verbatim>\<open>posixpath.isabs\<close>.\<close>

definition os_path_isabs :: "string \<Rightarrow> bool" where
  "os_path_isabs p = startswith p ''/''"

text \<open>
  \<^verbatim>\<open>os.walk(directory)\<close> yields triples \<^verbatim>\<open>(root, dirs, files)\<close>. The scanner
  below takes the walk as a function from the directory argument to the list of triples
  in the order they are yielded.
\<close>

type_synonym walk_entry = "string \<times> string list \<times> string list"

text \<open>
  What \<^verbatim>\<open>os.walk\<close> yields on a directory tree, top down and with the default
  \<^verbatim>\<open>onerror=None, followlinks=False\<close>: first the triple of the directory itself, with
  \<open>root\<close> the path as it was given, then the walks of its subdirectories in the order
  of \<open>dirs\<close>, each under \<^verbatim>\<open>join(root, name)\<close>. \<open>NoEntry\<close> is a directory that is
  not entered: one that cannot be listed (the error is ignored) or a symbolic link to a
  directory; as a directory argument it also stands for a path that does not exist.
\<close>

datatype dir_tree = Dir "(string \<times> dir_tree) list" "string list" | NoEntry

fun walk_tree :: "string \<Rightarrow> dir_tree \<Rightarrow> walk_entry list" where
  "walk_tree path NoEntry = []"
| "walk_tree path (Dir subdirs files) =
     (path, map fst subdirs, files)
       # concat (map (\<lambda>sub. walk_tree (os_path_join path (fst sub)) (snd sub)) subdirs)"

type_synonym file_system = "string \<Rightarrow> dir_tree"

definition os_walk :: "file_system \<Rightarrow> string \<Rightarrow> walk_entry list" where
  "os_walk tree directory = walk_tree directory (tree directory)"

text \<open>The names a directory entry can have: not empty, no separator.\<close>

definition valid_name :: "string \<Rightarrow> bool" where
  "valid_name name = (name \<noteq> [] \<and> CHR ''/'' \<notin> set name)"

fun wf_tree :: "dir_tree \<Rightarrow> bool" where
  "wf_tree NoEntry = True"
| "wf_tree (Dir subdirs files) =
     (list_all valid_name files
      \<and> list_all (\<lambda>sub. valid_name (fst sub) \<and> wf_tree (snd sub)) subdirs)"

subsection \<open>\<^verbatim>\<open>get_subdirs_files\<close> (lines 77-142)\<close>

definition IGNORE_LIST :: "string list" where
  "IGNORE_LIST = [''node_modules'', ''venv'', ''__pycache__'']"

text \<open>\<^verbatim>\<open>any(ignore_value in root for ignore_value in IGNORE_LIST)\<close> (line 136).\<close>

definition ignored :: "string \<Rightarrow> bool" where
  "ignored root = list_ex (\<lambda>ignore_value. str_in ignore_value root) IGNORE_LIST"

text \<open>
  \<^verbatim>\<open>file_paths\<close> is a Python \<^verbatim>\<open>set[str]\<close>. It is modelled by the list of its
  elements without repetition, in the order of insertion; \<^verbatim>\<open>file_paths.add\<close> leaves a
  set that has the element unchanged. Python iterates a set in an order of its own, so
  nothing below may depend on the order of this list: \<open>main\<close> sorts it.
\<close>

definition set_add :: "string list \<Rightarrow> string \<Rightarrow> string list" where
  "set_add file_paths p = (if p \<in> set file_paths then file_paths else file_paths @ [p])"

text \<open>The loop \<^verbatim>\<open>for file in files\<close> (lines 126-140), with its \<^verbatim>\<open>break\<close> and its
  two \<^verbatim>\<open>continue\<close>.\<close>

fun files_loop ::
  "bool \<Rightarrow> bool \<Rightarrow> string \<Rightarrow> string \<Rightarrow> string list \<Rightarrow> string list \<Rightarrow> string list" where
  "files_loop recursive includeHidden directory root [] file_paths = file_paths"
| "files_loop recursive includeHidden directory root (file # files) file_paths =
     (if \<not> recursive \<and> directory \<noteq> root then file_paths
      else if \<not> includeHidden \<and> startswith file ''.'' then
        files_loop recursive includeHidden directory root files file_paths
      else if ignored root then
        files_loop recursive includeHidden directory root files file_paths
      else
        files_loop recursive includeHidden directory root files
          (set_add file_paths (os_path_join root file)))"

text \<open>The loop \<^verbatim>\<open>for root, dirs, files in os.walk(directory)\<close> (line 106).\<close>

fun walk_loop ::
  "bool \<Rightarrow> bool \<Rightarrow> string \<Rightarrow> walk_entry list \<Rightarrow> string list \<Rightarrow> string list" where
  "walk_loop recursive includeHidden directory [] file_paths = file_paths"
| "walk_loop recursive includeHidden directory ((root, dirs, files) # entries) file_paths =
     walk_loop recursive includeHidden directory entries
       (files_loop recursive includeHidden directory root files file_paths)"

text \<open>The loop \<^verbatim>\<open>for directory in directories\<close> (line 105).\<close>

fun directories_loop ::
  "(string \<Rightarrow> walk_entry list) \<Rightarrow> bool \<Rightarrow> bool \<Rightarrow> string list \<Rightarrow> string list \<Rightarrow> string list"
  where
  "directories_loop walk recursive includeHidden [] file_paths = file_paths"
| "directories_loop walk recursive includeHidden (directory # directories) file_paths =
     directories_loop walk recursive includeHidden directories
       (walk_loop recursive includeHidden directory (walk directory) file_paths)"

text \<open>The function returns the pair \<^verbatim>\<open>(subdirectories, file_paths)\<close>; nothing is
  ever added to \<^verbatim>\<open>subdirectories\<close> (lines 109-123 are comments).\<close>

definition get_subdirs_files ::
  "(string \<Rightarrow> walk_entry list) \<Rightarrow> bool \<Rightarrow> bool \<Rightarrow> string list \<Rightarrow> string list \<times> string list"
  where
  "get_subdirs_files walk recursive includeHidden directories =
     ([], directories_loop walk recursive includeHidden directories [])"

subsection \<open>\<^verbatim>\<open>main\<close> (lines 186-233)\<close>

text \<open>What \<^verbatim>\<open>main\<close> prints, in the order it prints it.\<close>

datatype printed =
    PrintFilePaths "string list"
  | PrintTotalFiles nat
  | PrintFilesByHash table
  | PrintUniqueFiles nat
  | PrintDuplicateFiles int
  | PrintDuplicatesByHash table
  | PrintExit

text \<open>The generator of line 208; \<^verbatim>\<open>get_file_hash\<close> is called with its default
  \<^verbatim>\<open>chunk_size\<close>.\<close>

definition file_hashes_with_paths ::
  "file_store \<Rightarrow> string list \<Rightarrow> (py_exception + string \<times> string) list" where
  "file_hashes_with_paths fs file_paths =
     map (\<lambda>file_path.
            case get_file_hash fs file_path 10240 of
              Inl e \<Rightarrow> Inl e
            | Inr file_hash \<Rightarrow> Inr (file_hash, file_path))
         file_paths"

text \<open>The dictionary comprehension of line 226.\<close>

definition duplicates_only :: "table \<Rightarrow> table" where
  "duplicates_only files_by_hash =
     filter (\<lambda>(hash, paths). length paths > 1) files_by_hash"

text \<open>
  Lines 196-233, from the elements of the scanned set in the order Python iterates
  them. The result is what was printed and the exception that ended the run, if any.
\<close>

definition main_after_scan ::
  "file_store \<Rightarrow> int \<Rightarrow> string list \<Rightarrow> printed list \<times> py_exception option" where
  "main_after_scan fs verbose scanned =
     (let file_paths = sort scanned;
          out1 = (if verbose > 1 then [PrintFilePaths file_paths] else [])
                   @ [PrintTotalFiles (length file_paths)]
      in case group_files_by_hash (file_hashes_with_paths fs file_paths) of
           Inl e \<Rightarrow> (out1, Some e)
         | Inr files_by_hash \<Rightarrow>
             let unique_len = length files_by_hash;
                 duplicate_len = int (length file_paths) - int unique_len
             in (out1
                   @ (if verbose > 1 then [PrintFilesByHash files_by_hash] else [])
                   @ [PrintUniqueFiles unique_len, PrintDuplicateFiles duplicate_len,
                      PrintDuplicatesByHash (duplicates_only files_by_hash), PrintExit],
                 None))"

text \<open>\<^verbatim>\<open>main\<close> on the values \<^verbatim>\<open>parse_cli_args\<close> returned (line 192).\<close>

definition main ::
  "(string \<Rightarrow> walk_entry list) \<Rightarrow> file_store \<Rightarrow> bool \<Rightarrow> bool \<Rightarrow> int \<Rightarrow> string list
     \<Rightarrow> printed list \<times> py_exception option" where
  "main walk fs recursive include_hidden verbose directories =
     main_after_scan fs verbose
       (snd (get_subdirs_files walk recursive include_hidden directories))"

subsection \<open>Notions used in the proofs\<close>

text \<open>The number of paths a table holds, over all its groups.\<close>

definition paths_total :: "table \<Rightarrow> nat" where
  "paths_total t = sum_list (map (\<lambda>g. length (snd g)) t)"


text \<open>
  The text \<^verbatim>\<open>os.path.join\<close> puts in front of a name that has no separator: the
  directory, and a separator unless the directory is empty or ends with one.
\<close>

definition dir_prefix :: "string \<Rightarrow> string" where
  "dir_prefix a = (if a = [] \<or> endswith_char a CHR ''/'' then a else a @ ''/'')"

subsection \<open>An example\<close>

text \<open>
  The example of the specification: \<^verbatim>\<open>/data/a.txt\<close> and \<^verbatim>\<open>/data/b.txt\<close> hold
  the bytes of \<^verbatim>\<open>hello\<close>, \<^verbatim>\<open>/data/c.txt\<close> those of \<^verbatim>\<open>world\<close>;
  \<^verbatim>\<open>/data/broken\<close> opens and fails after five bytes; no other path can be opened, and
  no byte string above \<open>2^34\<close> bytes can be allocated. The trees: \<^verbatim>\<open>A\<close> (a relative path) with \<^verbatim>\<open>A/x.txt\<close> and
  \<^verbatim>\<open>A/sub/y.txt\<close>, and \<^verbatim>\<open>/data\<close> with a hidden file, a hidden directory and a
  directory whose name contains \<^verbatim>\<open>venv\<close>.
\<close>

definition hello :: "byte list" where
  "hello = [0x68, 0x65, 0x6c, 0x6c, 0x6f]"

definition world :: "byte list" where
  "world = [0x77, 0x6f, 0x72, 0x6c, 0x64]"

definition example_files :: file_store where
  "example_files =
     \<lparr>file_at = (\<lambda>p.
        if p = ''/data/a.txt'' \<or> p = ''/data/b.txt'' then Readable hello
        else if p = ''/data/c.txt'' then Readable world
        else if p = ''/data/broken'' then ReadFails hello
        else CannotOpen),
      max_alloc = 2 ^ 34\<rparr>"

definition example_tree :: file_system where
  "example_tree d =
     (if d = ''A'' then Dir [(''sub'', Dir [] [''y.txt''])] [''x.txt'']
      else if d = ''/data'' then
        Dir [(''.git'', Dir [] [''config'']), (''my_venv_backup'', Dir [] [''z.txt''])]
            [''a.txt'', ''b.txt'', ''c.txt'', ''.hidden'']
      else NoEntry)"

text \<open>The walk of the example with every list in the opposite order.\<close>

definition example_walk_reversed :: "string \<Rightarrow> walk_entry list" where
  "example_walk_reversed d =
     rev (map (\<lambda>(root, dirs, files). (root, rev dirs, rev files)) (os_walk example_tree d))"

section \<open>Lemmas\<close>

subsection \<open>The grouper\<close>

lemma dict_append_keys: "map fst (dict_append t h p) = map fst t"
  by (induction t h p rule: dict_append.induct) auto

lemma group_step_keys:
  "map fst (group_step t (h, p)) = (if h \<in> set (map fst t) then map fst t else map fst t @ [h])"
  by (simp add: group_step_def dict_has_key_def dict_append_keys)

lemma group_step_distinct:
  "distinct (map fst t) \<Longrightarrow> distinct (map fst (group_step t pair))"
  by (cases pair) (simp add: group_step_keys)

lemma paths_total_Nil: "paths_total [] = 0"
  by (simp add: paths_total_def)

lemma dict_append_total:
  "h \<in> set (map fst t) \<Longrightarrow> paths_total (dict_append t h p) = Suc (paths_total t)"
  by (induction t h p rule: dict_append.induct) (auto simp: paths_total_def)

lemma group_step_total: "paths_total (group_step t pair) = Suc (paths_total t)"
  by (cases pair) (simp add: group_step_def dict_has_key_def dict_append_total, simp add: paths_total_def)




lemma group_loop_Inr:
  "group_loop t items = Inr t' \<Longrightarrow>
     \<exists>pairs. items = map Inr pairs \<and> t' = fold (\<lambda>pair t. group_step t pair) pairs t"
proof (induction t items rule: group_loop.induct)
  case (1 t)
  then show ?case by simp
next
  case (2 t e files)
  then show ?case by simp
next
  case (3 t pair files)
  then obtain pairs where "files = map Inr pairs"
    "t' = fold (\<lambda>pair t. group_step t pair) pairs (group_step t pair)"
    by auto
  then have "Inr pair # files = map Inr (pair # pairs) \<and>
     t' = fold (\<lambda>pair t. group_step t pair) (pair # pairs) t"
    by simp
  then show ?case by (intro exI[of _ "pair # pairs"])
qed

lemma group_loop_map_Inr:
  "group_loop t (map Inr pairs) = Inr (fold (\<lambda>pair t. group_step t pair) pairs t)"
  by (induction pairs arbitrary: t) auto

lemma fold_group_distinct:
  "distinct (map fst t) \<Longrightarrow> distinct (map fst (fold (\<lambda>pair t. group_step t pair) pairs t))"
  by (induction pairs arbitrary: t) (auto simp: group_step_distinct)

lemma fold_group_total:
  "paths_total (fold (\<lambda>pair t. group_step t pair) pairs t) = paths_total t + length pairs"
  by (induction pairs arbitrary: t) (auto simp: group_step_total)





lemma sum_minus_one:
  "(\<Sum>g\<leftarrow>t. int (length (snd g)) - 1) = int (paths_total t) - int (length t)"
  by (induction t) (auto simp: paths_total_def)

subsection \<open>Reading and hashing\<close>

lemma take_empty_drop_empty: "0 < n \<Longrightarrow> take n xs = [] \<Longrightarrow> drop n xs = []"
  by (cases xs; cases n) simp_all

lemma f_read_ok:
  "0 < n \<Longrightarrow> n \<le> int limit \<Longrightarrow> n < 2 ^ 63 - 33 \<Longrightarrow>
     f_read limit False n rest = Inr (take (nat n) rest, drop (nat n) rest)"
  by (simp add: f_read_def)

lemma f_read_faulty:
  "0 < n \<Longrightarrow> n \<le> int limit \<Longrightarrow> n < 2 ^ 63 - 33 \<Longrightarrow>
     f_read limit True n rest =
       (if int (length rest) < n then Inl (OSError None)
        else Inr (take (nat n) rest, drop (nat n) rest))"
  by (simp add: f_read_def)

lemma f_read_too_large:
  "0 < n \<Longrightarrow> \<not> (n \<le> int limit \<and> n < 2 ^ 63 - 33) \<Longrightarrow>
     f_read limit faulty n rest = Inl OverflowError \<or> f_read limit faulty n rest = Inl MemoryError"
  by (auto simp: f_read_def)

lemma read_loop_all:
  "0 < chunk_size \<Longrightarrow> chunk_size \<le> int limit \<Longrightarrow> chunk_size < 2 ^ 63 - 33 \<Longrightarrow>
   (chunk = [] \<longrightarrow> rest = []) \<Longrightarrow>
     read_loop limit False chunk_size hash_obj chunk rest = Inr (hash_obj @ chunk @ rest)"
proof (induction limit "False" chunk_size hash_obj chunk rest rule: read_loop.induct)
  case (1 limit chunk_size hash_obj chunk rest)
  show ?case
  proof (cases "chunk = []")
    case True
    with "1.prems" show ?thesis by simp
  next
    case False
    have rd: "f_read limit False chunk_size rest
        = Inr (take (nat chunk_size) rest, drop (nat chunk_size) rest)"
      using "1.prems" by (simp add: f_read_ok)
    have inv: "take (nat chunk_size) rest = [] \<longrightarrow> drop (nat chunk_size) rest = []"
      using "1.prems"(1) by (auto intro: take_empty_drop_empty)
    have "read_loop limit False chunk_size hash_obj chunk rest =
        read_loop limit False chunk_size (update hash_obj chunk)
          (take (nat chunk_size) rest) (drop (nat chunk_size) rest)"
      using False by (subst read_loop.simps) (simp add: rd)
    also have "\<dots> = Inr (update hash_obj chunk @ take (nat chunk_size) rest
                          @ drop (nat chunk_size) rest)"
      using "1.hyps"[OF False rd] "1.prems"(1-3) inv by simp
    also have "\<dots> = Inr (hash_obj @ chunk @ rest)"
      by (simp add: update_def)
    finally show ?thesis .
  qed
qed

lemma read_loop_faulty:
  "0 < chunk_size \<Longrightarrow> chunk_size \<le> int limit \<Longrightarrow> chunk_size < 2 ^ 63 - 33 \<Longrightarrow>
   chunk \<noteq> [] \<Longrightarrow>
     read_loop limit True chunk_size hash_obj chunk rest = Inl (OSError None)"
proof (induction limit "True" chunk_size hash_obj chunk rest rule: read_loop.induct)
  case (1 limit chunk_size hash_obj chunk rest)
  show ?case
  proof (cases "int (length rest) < chunk_size")
    case True
    then have "f_read limit True chunk_size rest = Inl (OSError None)"
      using "1.prems" by (simp add: f_read_faulty)
    then show ?thesis
      using "1.prems"(4) by (subst read_loop.simps) simp
  next
    case False
    then have rd: "f_read limit True chunk_size rest
        = Inr (take (nat chunk_size) rest, drop (nat chunk_size) rest)"
      using "1.prems" by (simp add: f_read_faulty)
    have ne: "take (nat chunk_size) rest \<noteq> []"
      using False "1.prems"(1) by (cases rest) auto
    have "read_loop limit True chunk_size hash_obj chunk rest =
        read_loop limit True chunk_size (update hash_obj chunk)
          (take (nat chunk_size) rest) (drop (nat chunk_size) rest)"
      using "1.prems"(4) by (subst read_loop.simps) (simp add: rd)
    also have "\<dots> = Inl (OSError None)"
      using "1.hyps"[OF "1.prems"(4) rd] "1.prems"(1-3) ne by simp
    finally show ?thesis .
  qed
qed

lemma hash_stream_ok:
  assumes "0 < chunk_size" and "chunk_size \<le> int limit" and "chunk_size < 2 ^ 63 - 33"
  shows "hash_stream limit False chunk_size content = Inr (hexstr (md5 content))"
proof -
  have "read_loop limit False chunk_size hashlib_md5
          (take (nat chunk_size) content) (drop (nat chunk_size) content) = Inr content"
    using assms
    by (subst read_loop_all) (auto simp: hashlib_md5_def intro: take_empty_drop_empty)
  then show ?thesis
    using assms by (simp add: hash_stream_def f_read_ok hexdigest_def)
qed

lemma hash_stream_faulty:
  assumes "0 < chunk_size" and "chunk_size \<le> int limit" and "chunk_size < 2 ^ 63 - 33"
  shows "hash_stream limit True chunk_size content = Inl (OSError None)"
proof (cases "int (length content) < chunk_size")
  case True
  then show ?thesis
    using assms by (simp add: hash_stream_def f_read_faulty)
next
  case False
  then have "take (nat chunk_size) content \<noteq> []"
    using assms(1) by (cases content) auto
  then have "read_loop limit True chunk_size hashlib_md5
          (take (nat chunk_size) content) (drop (nat chunk_size) content) = Inl (OSError None)"
    using assms by (intro read_loop_faulty)
  then show ?thesis
    using assms False by (simp add: hash_stream_def f_read_faulty)
qed

lemma hash_stream_too_large:
  assumes "0 < chunk_size" and "\<not> (chunk_size \<le> int limit \<and> chunk_size < 2 ^ 63 - 33)"
  shows "hash_stream limit faulty chunk_size content = Inl OverflowError
       \<or> hash_stream limit faulty chunk_size content = Inl MemoryError"
  using f_read_too_large[OF assms, of faulty content] by (auto simp: hash_stream_def)

lemma get_file_hash_Readable:
  assumes "0 < chunk_size" and "chunk_size \<le> int (max_alloc fs)" and "chunk_size < 2 ^ 63 - 33"
    and "file_at fs file_path = Readable content"
  shows "get_file_hash fs file_path chunk_size = Inr (hexstr (md5 content))"
  using assms by (simp add: get_file_hash_def hash_stream_ok)

lemma get_file_hash_CannotOpen:
  "file_at fs file_path = CannotOpen \<Longrightarrow>
     get_file_hash fs file_path n = Inl (OSError (Some file_path))"
  by (simp add: get_file_hash_def)

lemma get_file_hash_ReadFails:
  assumes "0 < chunk_size" and "chunk_size \<le> int (max_alloc fs)" and "chunk_size < 2 ^ 63 - 33"
    and "file_at fs file_path = ReadFails content"
  shows "get_file_hash fs file_path chunk_size = Inl (OSError None)"
  using assms by (simp add: get_file_hash_def hash_stream_faulty)


text \<open>A file that cannot be opened or read gives no digest, whatever the chunk size.\<close>

lemma get_file_hash_not_Readable:
  assumes "0 < chunk_size" and "\<forall>content. file_at fs file_path \<noteq> Readable content"
  shows "\<exists>e. get_file_hash fs file_path chunk_size = Inl e"
proof (cases "file_at fs file_path")
  case CannotOpen
  then show ?thesis by (simp add: get_file_hash_def)
next
  case (Readable content)
  with assms(2) show ?thesis by simp
next
  case (ReadFails content)
  show ?thesis
  proof (cases "chunk_size \<le> int (max_alloc fs) \<and> chunk_size < 2 ^ 63 - 33")
    case True
    with assms(1) ReadFails show ?thesis by (simp add: get_file_hash_ReadFails)
  next
    case False
    from hash_stream_too_large[OF assms(1) False, of True content] ReadFails
    show ?thesis by (auto simp: get_file_hash_def)
  qed
qed

text \<open>Outside \<open>chunk_size > 0\<close>: 0 reads nothing, \<open>-1\<close> reads the file at once, and a size
  below \<open>-1\<close> is refused.\<close>

lemma get_file_hash_chunk_size_zero:
  "file_at fs file_path = Readable content \<or> file_at fs file_path = ReadFails content \<Longrightarrow>
     get_file_hash fs file_path 0 = Inr (hexstr (md5 []))"
  by (auto simp: get_file_hash_def hash_stream_def f_read_def hexdigest_def hashlib_md5_def)

lemma get_file_hash_chunk_size_minus_one:
  assumes "file_at fs file_path = Readable content" and "length content \<le> max_alloc fs"
  shows "get_file_hash fs file_path (- 1) = Inr (hexstr (md5 content))"
proof -
  have fr: "f_read (max_alloc fs) False (- 1) rest = Inr (rest, [])"
    if "length rest \<le> max_alloc fs" for rest
    using that by (simp add: f_read_def)
  have "read_loop (max_alloc fs) False (- 1) hashlib_md5 content [] = Inr content"
    by (subst read_loop.simps, subst read_loop.simps) (simp add: fr update_def hashlib_md5_def)
  then show ?thesis
    using assms by (simp add: get_file_hash_def hash_stream_def hexdigest_def fr)
qed

lemma get_file_hash_chunk_size_below_minus_one:
  "n < - 1 \<Longrightarrow> file_at fs file_path \<noteq> CannotOpen \<Longrightarrow>
     get_file_hash fs file_path n = Inl ValueError"
  by (cases "file_at fs file_path") (simp_all add: get_file_hash_def hash_stream_def f_read_def)









subsection \<open>Hashing and grouping the sorted paths\<close>

lemma fhwp_map_Inr:
  "file_hashes_with_paths fs ps = map Inr pairs \<Longrightarrow>
     map snd pairs = ps \<and> (\<forall>pair\<in>set pairs. get_file_hash fs (snd pair) 10240 = Inr (fst pair))"
proof (induction ps arbitrary: pairs)
  case Nil
  then show ?case by (simp add: file_hashes_with_paths_def)
next
  case (Cons p ps)
  from Cons.prems obtain pair pairs' where pairs: "pairs = pair # pairs'"
    by (cases pairs) (auto simp: file_hashes_with_paths_def)
  from Cons.prems have hd: "get_file_hash fs p 10240 = Inr (fst pair)" "snd pair = p"
    and tl: "file_hashes_with_paths fs ps = map Inr pairs'"
    by (auto simp: pairs file_hashes_with_paths_def split: sum.splits)
  from Cons.IH[OF tl] hd show ?case
    by (simp add: pairs)
qed

lemma fhwp_readable:
  "10240 \<le> max_alloc fs \<Longrightarrow> \<forall>p\<in>set ps. \<exists>c. file_at fs p = Readable c \<Longrightarrow>
     \<exists>pairs. file_hashes_with_paths fs ps = map Inr pairs"
proof (induction ps)
  case Nil
  then show ?case by (simp add: file_hashes_with_paths_def)
next
  case (Cons p ps)
  then obtain pairs where tl: "file_hashes_with_paths fs ps = map Inr pairs"
    by auto
  from Cons.prems obtain c where "file_at fs p = Readable c" by auto
  then have "get_file_hash fs p 10240 = Inr (hexstr (md5 c))"
    using Cons.prems(1) by (intro get_file_hash_Readable) simp_all
  then have "file_hashes_with_paths fs (p # ps) = map Inr ((hexstr (md5 c), p) # pairs)"
    using tl by (simp add: file_hashes_with_paths_def)
  then show ?case by (intro exI)
qed

lemma fhwp_append:
  "file_hashes_with_paths fs (ps @ qs) = file_hashes_with_paths fs ps @ file_hashes_with_paths fs qs"
  by (simp add: file_hashes_with_paths_def)

lemma fhwp_raises:
  "get_file_hash fs q 10240 = Inl e \<Longrightarrow>
     file_hashes_with_paths fs (q # qs) = Inl e # file_hashes_with_paths fs qs"
  by (simp add: file_hashes_with_paths_def)

lemma group_loop_abort: "group_loop t (map Inr pairs @ Inl e # rest) = Inl e"
  by (induction pairs arbitrary: t) simp_all

lemma group_loop_raises: "Inl e0 \<in> set items \<Longrightarrow> \<exists>e. group_loop t items = Inl e"
proof (induction items arbitrary: t)
  case Nil
  then show ?case by simp
next
  case (Cons item items)
  then show ?case by (cases item) auto
qed

lemma grouping_success:
  assumes "group_files_by_hash (file_hashes_with_paths fs ps) = Inr t"
  obtains pairs where "map snd pairs = ps"
    and "\<forall>pair\<in>set pairs. get_file_hash fs (snd pair) 10240 = Inr (fst pair)"
    and "t = fold (\<lambda>pair t. group_step t pair) pairs []"
proof -
  from assms obtain pairs where items: "file_hashes_with_paths fs ps = map Inr pairs"
    and t: "t = fold (\<lambda>pair t. group_step t pair) pairs []"
    unfolding group_files_by_hash_def by (blast dest: group_loop_Inr)
  from fhwp_map_Inr[OF items] t that show ?thesis by blast
qed

lemma grouping_distinct_keys:
  "group_files_by_hash (file_hashes_with_paths fs ps) = Inr t \<Longrightarrow> distinct (map fst t)"
  by (erule grouping_success) (simp add: fold_group_distinct)

lemma grouping_total:
  "group_files_by_hash (file_hashes_with_paths fs ps) = Inr t \<Longrightarrow> paths_total t = length ps"
proof (erule grouping_success)
  fix pairs
  assume "map snd pairs = ps" and "t = fold (\<lambda>pair t. group_step t pair) pairs []"
  then have "paths_total t = length pairs" "length pairs = length ps"
    by (auto simp: fold_group_total paths_total_Nil)
  then show ?thesis by simp
qed


subsection \<open>Runs of main\<close>

lemma main_after_scan_success:
  "group_files_by_hash (file_hashes_with_paths fs (sort scanned)) = Inr files_by_hash \<Longrightarrow>
     main_after_scan fs verbose scanned =
       ((if verbose > 1 then [PrintFilePaths (sort scanned)] else [])
          @ [PrintTotalFiles (length scanned)]
          @ (if verbose > 1 then [PrintFilesByHash files_by_hash] else [])
          @ [PrintUniqueFiles (length files_by_hash),
             PrintDuplicateFiles (int (length scanned) - int (length files_by_hash)),
             PrintDuplicatesByHash (duplicates_only files_by_hash), PrintExit],
        None)"
  by (simp add: main_after_scan_def Let_def)

lemma main_after_scan_failure:
  "group_files_by_hash (file_hashes_with_paths fs (sort scanned)) = Inl e \<Longrightarrow>
     main_after_scan fs verbose scanned =
       ((if verbose > 1 then [PrintFilePaths (sort scanned)] else [])
          @ [PrintTotalFiles (length scanned)],
        Some e)"
  by (simp add: main_after_scan_def Let_def)

lemma main_after_scan_None:
  assumes "main_after_scan fs verbose scanned = (out, None)"
  obtains files_by_hash where
    "group_files_by_hash (file_hashes_with_paths fs (sort scanned)) = Inr files_by_hash"
proof (cases "group_files_by_hash (file_hashes_with_paths fs (sort scanned))")
  case (Inl e)
  from main_after_scan_failure[OF Inl] assms show ?thesis by simp
next
  case (Inr files_by_hash)
  then show ?thesis by (rule that)
qed

lemma map_of_duplicates_only:
  "distinct (map fst t) \<Longrightarrow>
     map_of (duplicates_only t) h =
       (case map_of t h of None \<Rightarrow> None
        | Some paths \<Rightarrow> if 1 < length paths then Some paths else None)"
proof (induction t)
  case Nil
  then show ?case by (simp add: duplicates_only_def)
next
  case (Cons g t)
  obtain k ps where g: "g = (k, ps)" by (cases g)
  from Cons.prems have notin: "k \<notin> fst ` set t" and dist: "distinct (map fst t)"
    by (simp_all add: g)
  have tl: "duplicates_only ((k', ps) # t) =
      (if 1 < length ps then [(k', ps)] else []) @ duplicates_only t" for k'
    by (simp add: duplicates_only_def)
  show ?case
  proof (cases "k = h")
    case True
    have "h \<notin> fst ` set (duplicates_only t)"
      using notin True by (auto simp: duplicates_only_def)
    then have "map_of (duplicates_only t) h = None"
      by (simp add: map_of_eq_None_iff)
    then show ?thesis
      by (simp add: tl g True)
  next
    case False
    then show ?thesis
      using Cons.IH[OF dist] by (simp add: tl g)
  qed
qed

subsection \<open>Strings and paths\<close>

lemma startswith_iff: "startswith s pre \<longleftrightarrow> (\<exists>t. s = pre @ t)"
  by (induction s pre rule: startswith.induct) auto

lemma str_in_iff: "str_in sub s \<longleftrightarrow> (\<exists>a b. s = a @ sub @ b)"
proof (induction s)
  case Nil
  then show ?case by auto
next
  case (Cons x s)
  show ?case
  proof
    assume "str_in sub (x # s)"
    then consider "startswith (x # s) sub" | "str_in sub s" by auto
    then show "\<exists>a b. x # s = a @ sub @ b"
    proof cases
      case 1
      then obtain t where "x # s = sub @ t" by (auto simp: startswith_iff)
      then have "x # s = [] @ sub @ t" by simp
      then show ?thesis by blast
    next
      case 2
      then obtain a b where "s = a @ sub @ b" using Cons.IH by blast
      then have "x # s = (x # a) @ sub @ b" by simp
      then show ?thesis by blast
    qed
  next
    assume "\<exists>a b. x # s = a @ sub @ b"
    then obtain a b where ab: "x # s = a @ sub @ b" by blast
    show "str_in sub (x # s)"
    proof (cases a)
      case Nil
      with ab have "startswith (x # s) sub" by (auto simp: startswith_iff)
      then show ?thesis by simp
    next
      case (Cons y a')
      with ab have "s = a' @ sub @ b" by simp
      then have "str_in sub s" using Cons.IH by blast
      then show ?thesis by simp
    qed
  qed
qed

lemma startswith_slash: "CHR ''/'' \<notin> set b \<Longrightarrow> \<not> startswith b ''/''"
  by (cases b) auto

lemma join_slash_free: "CHR ''/'' \<notin> set b \<Longrightarrow> os_path_join a b = dir_prefix a @ b"
  by (simp add: os_path_join_def dir_prefix_def startswith_slash)

lemma dir_prefix_cases: "dir_prefix a = a \<or> dir_prefix a = a @ ''/''"
  by (simp add: dir_prefix_def)

lemma dir_prefix_last: "dir_prefix a = [] \<or> last (dir_prefix a) = CHR ''/''"
  by (auto simp: dir_prefix_def endswith_char_def)

lemma dir_prefix_append: "\<exists>s. dir_prefix a = a @ s"
  by (simp add: dir_prefix_def)

lemma length_dir_prefix: "length a \<le> length (dir_prefix a)"
  by (simp add: dir_prefix_def)

lemma append_slash_free_unique:
  assumes "x @ f = x' @ f'" and "CHR ''/'' \<notin> set f" and "CHR ''/'' \<notin> set f'"
    and "x = [] \<or> last x = CHR ''/''" and "x' = [] \<or> last x' = CHR ''/''"
  shows "x = x' \<and> f = f'"
proof -
  from assms(1) consider us where "x = x' @ us" "us @ f = f'"
    | us where "x @ us = x'" "f = us @ f'"
    by (auto simp: append_eq_append_conv2)
  then show ?thesis
  proof cases
    case 1
    have "us = []"
    proof (rule ccontr)
      assume ne: "us \<noteq> []"
      then have "x \<noteq> []" "last x = last us" using 1(1) by simp_all
      with assms(4) have "CHR ''/'' \<in> set us" using ne last_in_set by metis
      with 1(2) assms(3) show False by auto
    qed
    with 1 show ?thesis by simp
  next
    case 2
    have "us = []"
    proof (rule ccontr)
      assume ne: "us \<noteq> []"
      then have "x' \<noteq> []" "last x' = last us" using 2(1) by auto
      with assms(5) have "CHR ''/'' \<in> set us" using ne last_in_set by metis
      with 2(2) assms(2) show False by auto
    qed
    with 2 show ?thesis by simp
  qed
qed

lemma join_eq:
  assumes "os_path_join a f = os_path_join a' f'"
    and "CHR ''/'' \<notin> set f" and "CHR ''/'' \<notin> set f'"
  shows "f = f' \<and> dir_prefix a = dir_prefix a'"
  using append_slash_free_unique[of "dir_prefix a" f "dir_prefix a'" f']
    assms dir_prefix_last[of a] dir_prefix_last[of a']
  by (simp add: join_slash_free)

lemma str_in_append_slash:
  assumes "v \<noteq> []" and "CHR ''/'' \<notin> set v"
  shows "str_in v (a @ ''/'') \<longleftrightarrow> str_in v a"
proof
  assume "str_in v (a @ ''/'')"
  then obtain x y where xy: "a @ ''/'' = x @ v @ y" by (auto simp: str_in_iff)
  have "y \<noteq> []"
  proof
    assume "y = []"
    with xy have "last (x @ v) = CHR ''/''"
      by (metis append_Nil2 last_snoc)
    with assms show False by (metis last_appendR last_in_set)
  qed
  then obtain y' where y: "y = y' @ [last y]"
    by (metis append_butlast_last_id)
  with xy have "a @ ''/'' = (x @ v @ y') @ [last y]" by simp
  then have "a = x @ v @ y'" by simp
  then show "str_in v a" by (auto simp: str_in_iff)
next
  assume "str_in v a"
  then obtain x y where "a = x @ v @ y" by (auto simp: str_in_iff)
  then have "a @ ''/'' = x @ v @ (y @ ''/'')" by simp
  then show "str_in v (a @ ''/'')" unfolding str_in_iff by blast
qed

lemma ignored_append_slash: "ignored (a @ ''/'') \<longleftrightarrow> ignored a"
  by (simp add: ignored_def IGNORE_LIST_def str_in_append_slash)

lemma ignored_dir_prefix: "ignored (dir_prefix a) \<longleftrightarrow> ignored a"
  using dir_prefix_cases[of a] by (auto simp: ignored_append_slash)

subsection \<open>The scanner\<close>

lemma set_set_add: "set (set_add s p) = insert p (set s)"
  by (auto simp: set_add_def)

lemma distinct_set_add: "distinct s \<Longrightarrow> distinct (set_add s p)"
  by (simp add: set_add_def)

lemma files_loop_mem:
  "p \<in> set (files_loop r h d root files acc) \<longleftrightarrow>
     p \<in> set acc \<or> (\<exists>f. f \<in> set files \<and> p = os_path_join root f \<and> (r \<or> d = root)
                    \<and> (h \<or> \<not> startswith f ''.'') \<and> \<not> ignored root)"
  by (induction r h d root files acc rule: files_loop.induct) (auto simp: set_set_add)

lemma files_loop_distinct: "distinct acc \<Longrightarrow> distinct (files_loop r h d root files acc)"
  by (induction r h d root files acc rule: files_loop.induct) (auto simp: distinct_set_add)

lemma walk_loop_mem:
  "p \<in> set (walk_loop r h d entries acc) \<longleftrightarrow>
     p \<in> set acc \<or> (\<exists>root ds files f. (root, ds, files) \<in> set entries
                    \<and> f \<in> set files \<and> p = os_path_join root f \<and> (r \<or> d = root)
                    \<and> (h \<or> \<not> startswith f ''.'') \<and> \<not> ignored root)"
proof (induction r h d entries acc rule: walk_loop.induct)
  case (1 r h d acc)
  then show ?case by simp
next
  case (2 r h d root ds files entries acc)
  show ?case
  proof -
    have "(\<exists>root' ds' files'. (root', ds', files') \<in> set ((root, ds, files) # entries) \<and> Q root' files')
      \<longleftrightarrow> Q root files \<or> (\<exists>root' ds' files'. (root', ds', files') \<in> set entries \<and> Q root' files')"
      for Q :: "string \<Rightarrow> string list \<Rightarrow> bool"
      by auto
    note split = this[of "\<lambda>root files. \<exists>f. f \<in> set files \<and> p = os_path_join root f \<and> (r \<or> d = root)
                    \<and> (h \<or> \<not> startswith f ''.'') \<and> \<not> ignored root"]
    show ?thesis
      unfolding walk_loop.simps "2.IH" files_loop_mem using split by blast
  qed
qed

lemma walk_loop_distinct: "distinct acc \<Longrightarrow> distinct (walk_loop r h d entries acc)"
  by (induction r h d entries acc rule: walk_loop.induct) (auto simp: files_loop_distinct)

lemma directories_loop_mem:
  "p \<in> set (directories_loop walk r h dirs acc) \<longleftrightarrow>
     p \<in> set acc \<or> (\<exists>d root ds files f. d \<in> set dirs
                    \<and> (root, ds, files) \<in> set (walk d)
                    \<and> f \<in> set files \<and> p = os_path_join root f \<and> (r \<or> d = root)
                    \<and> (h \<or> \<not> startswith f ''.'') \<and> \<not> ignored root)"
proof (induction walk r h dirs acc rule: directories_loop.induct)
  case (1 walk r h acc)
  then show ?case by simp
next
  case (2 walk r h d dirs acc)
  show ?case
  proof -
    have "(\<exists>d'. d' \<in> set (d # dirs) \<and> Q d') \<longleftrightarrow> Q d \<or> (\<exists>d'. d' \<in> set dirs \<and> Q d')"
      for Q :: "string \<Rightarrow> bool"
      by auto
    note split = this[of "\<lambda>d. \<exists>root ds files f. (root, ds, files) \<in> set (walk d)
                    \<and> f \<in> set files \<and> p = os_path_join root f \<and> (r \<or> d = root)
                    \<and> (h \<or> \<not> startswith f ''.'') \<and> \<not> ignored root"]
    show ?thesis
      unfolding directories_loop.simps "2.IH" walk_loop_mem using split by blast
  qed
qed

lemma directories_loop_distinct:
  "distinct acc \<Longrightarrow> distinct (directories_loop walk r h dirs acc)"
  by (induction walk r h dirs acc rule: directories_loop.induct) (auto simp: walk_loop_distinct)

lemma scan_iff:
  "p \<in> set (snd (get_subdirs_files walk r h dirs)) \<longleftrightarrow>
     (\<exists>d root ds files f. d \<in> set dirs \<and> (root, ds, files) \<in> set (walk d) \<and> f \<in> set files
        \<and> p = os_path_join root f \<and> (r \<or> d = root)
        \<and> (h \<or> \<not> startswith f ''.'') \<and> \<not> ignored root)"
  unfolding get_subdirs_files_def snd_conv directories_loop_mem by simp

lemma scan_distinct: "distinct (snd (get_subdirs_files walk r h dirs))"
  by (simp add: get_subdirs_files_def directories_loop_distinct)

lemma scan_set_cong:
  assumes "\<forall>d\<in>set directories. \<forall>root f.
             (\<exists>dirs files. (root, dirs, files) \<in> set (walk1 d) \<and> f \<in> set files)
               \<longleftrightarrow> (\<exists>dirs files. (root, dirs, files) \<in> set (walk2 d) \<and> f \<in> set files)"
  shows "set (snd (get_subdirs_files walk1 r h directories))
       = set (snd (get_subdirs_files walk2 r h directories))"
proof -
  have "p \<in> set (snd (get_subdirs_files walk1 r h directories))
      \<longleftrightarrow> p \<in> set (snd (get_subdirs_files walk2 r h directories))" for p
  proof -
    have "p \<in> set (snd (get_subdirs_files walk r h directories)) \<longleftrightarrow>
        (\<exists>d\<in>set directories. \<exists>root f.
           (\<exists>dirs files. (root, dirs, files) \<in> set (walk d) \<and> f \<in> set files)
           \<and> p = os_path_join root f \<and> (r \<or> d = root)
           \<and> (h \<or> \<not> startswith f ''.'') \<and> \<not> ignored root)" for walk
      unfolding scan_iff by blast
    with assms show ?thesis by simp
  qed
  then show ?thesis by blast
qed

lemma walk_tree_entry:
  assumes "wf_tree t" and "(root, ds, files) \<in> set (walk_tree path t)"
  shows "(root = path \<and> (\<exists>subs. t = Dir subs files \<and> ds = map fst subs))
       \<or> (\<exists>name y. valid_name name \<and> root = dir_prefix path @ name @ y)"
  using assms
proof (induction path t rule: walk_tree.induct)
  case (1 path)
  then show ?case by simp
next
  case (2 path subdirs files')
  from "2.prems"(2) consider
    (head) "root = path" "ds = map fst subdirs" "files = files'"
    | (nested) sub where "sub \<in> set subdirs"
      "(root, ds, files) \<in> set (walk_tree (os_path_join path (fst sub)) (snd sub))"
    by auto
  then show ?case
  proof cases
    case head
    then show ?thesis by simp
  next
    case nested
    from "2.prems"(1) nested(1) have v: "valid_name (fst sub)" and wf: "wf_tree (snd sub)"
      by (auto simp: list_all_iff)
    have j: "os_path_join path (fst sub) = dir_prefix path @ fst sub"
      using v by (simp add: join_slash_free valid_name_def)
    from "2.IH"[OF nested(1) wf nested(2)] consider
      (here) "root = os_path_join path (fst sub)"
      | (below) name y where "valid_name name"
        "root = dir_prefix (os_path_join path (fst sub)) @ name @ y"
      by blast
    then show ?thesis
    proof cases
      case here
      then have "root = dir_prefix path @ fst sub @ []" by (simp add: j)
      with v show ?thesis by blast
    next
      case below
      obtain s where "dir_prefix (os_path_join path (fst sub)) = os_path_join path (fst sub) @ s"
        using dir_prefix_append by blast
      then have "root = dir_prefix path @ fst sub @ (s @ name @ y)"
        using below(2) j by simp
      with v show ?thesis by blast
    qed
  qed
qed

lemma nested_root_longer:
  "valid_name name \<Longrightarrow> length (dir_prefix path) < length (dir_prefix path @ name @ y)"
  by (cases name) (simp_all add: valid_name_def)

lemma os_walk_top:
  assumes "wf_tree (tree d)" and "(d, ds, files) \<in> set (os_walk tree d)"
  shows "\<exists>subs. tree d = Dir subs files"
proof -
  from walk_tree_entry[OF assms(1) assms(2)[unfolded os_walk_def]]
  consider "\<exists>subs. tree d = Dir subs files \<and> ds = map fst subs"
    | name y where "valid_name name" "d = dir_prefix d @ name @ y"
    by blast
  then show ?thesis
  proof cases
    case 1
    then show ?thesis by blast
  next
    case 2
    have "length d < length (dir_prefix d @ name @ y)"
      using nested_root_longer[OF 2(1), of d y] length_dir_prefix[of d] by linarith
    with 2(2) show ?thesis by simp
  qed
qed

lemma os_walk_nested:
  assumes "wf_tree (tree d)" and "(root, ds, files) \<in> set (os_walk tree d)" and "root \<noteq> d"
  shows "\<exists>name y. valid_name name \<and> root = dir_prefix d @ name @ y"
  using walk_tree_entry[OF assms(1) assms(2)[unfolded os_walk_def]] assms(3) by blast

lemma walk_tree_files_valid:
  "wf_tree t \<Longrightarrow> (root, ds, files) \<in> set (walk_tree path t) \<Longrightarrow> f \<in> set files \<Longrightarrow> valid_name f"
proof (induction path t rule: walk_tree.induct)
  case (1 path)
  then show ?case by simp
next
  case (2 path subdirs files')
  from "2.prems"(2) consider
    (head) "files = files'"
    | (nested) sub where "sub \<in> set subdirs"
      "(root, ds, files) \<in> set (walk_tree (os_path_join path (fst sub)) (snd sub))"
    by auto
  then show ?case
  proof cases
    case head
    with "2.prems" show ?thesis by (auto simp: list_all_iff)
  next
    case nested
    from "2.prems"(1) nested(1) have "wf_tree (snd sub)"
      by (auto simp: list_all_iff)
    from "2.IH"[OF nested(1) this nested(2) "2.prems"(3)] show ?thesis .
  qed
qed

lemma ignored_iff: "ignored root \<longleftrightarrow> (\<exists>v\<in>set IGNORE_LIST. \<exists>a b. root = a @ v @ b)"
  by (simp add: ignored_def list_ex_iff str_in_iff)

lemma scan_not_member:
  assumes names: "\<forall>d\<in>set directories. \<forall>(root', dirs', files')\<in>set (walk d).
                    \<forall>f\<in>set files'. CHR ''/'' \<notin> set f"
    and "directory \<in> set directories" and "(root, dirs, files) \<in> set (walk directory)"
    and "file \<in> set files"
    and "os_path_join root file \<in> set (snd (get_subdirs_files walk r h directories))"
  obtains d root' dirs' files' where "d \<in> set directories"
    and "(root', dirs', files') \<in> set (walk d)" and "file \<in> set files'"
    and "dir_prefix root' = dir_prefix root"
    and "r \<or> d = root'" and "h \<or> \<not> startswith file ''.''" and "\<not> ignored root'"
proof -
  from assms(5) obtain d root' dirs' files' f where d: "d \<in> set directories"
    and e: "(root', dirs', files') \<in> set (walk d)" and f: "f \<in> set files'"
    and eq: "os_path_join root file = os_path_join root' f"
    and c: "r \<or> d = root'" "h \<or> \<not> startswith f ''.''" "\<not> ignored root'"
    unfolding scan_iff by blast
  have "CHR ''/'' \<notin> set file" "CHR ''/'' \<notin> set f"
    using names assms(2,3,4) d e f by fast+
  from join_eq[OF eq this] have "file = f" "dir_prefix root = dir_prefix root'"
    by simp_all
  with d e f c that show ?thesis by metis
qed

subsection \<open>The example, evaluated\<close>

text \<open>Two digests that \<^verbatim>\<open>hashlib.md5\<close> gives for the same bytes.\<close>

lemma md5_hello: "hexstr (md5 hello) = ''5d41402abc4b2a76b9719d911017c592''"
  by code_simp

lemma md5_world: "hexstr (md5 world) = ''7d793037a0760186574b0282f2f435e7''"
  by code_simp

lemma md5_empty: "hexstr (md5 []) = ''d41d8cd98f00b204e9800998ecf8427e''"
  by code_simp

lemma md5_two_blocks: "hexstr (md5 (replicate 56 0x61)) = ''3b0c8ac703f828b04c6c197006d17218''"
  by code_simp

lemma example_file_at:
  "file_at example_files ''/data/a.txt'' = Readable hello"
  "file_at example_files ''/data/b.txt'' = Readable hello"
  "file_at example_files ''/data/c.txt'' = Readable world"
  "file_at example_files ''/data/broken'' = ReadFails hello"
  "file_at example_files ''/data/missing'' = CannotOpen"
  "max_alloc example_files = 2 ^ 34"
  by (simp_all add: example_files_def)

lemma example_digests:
  "get_file_hash example_files ''/data/a.txt'' 10240 = Inr ''5d41402abc4b2a76b9719d911017c592''"
  "get_file_hash example_files ''/data/b.txt'' 10240 = Inr ''5d41402abc4b2a76b9719d911017c592''"
  "get_file_hash example_files ''/data/c.txt'' 10240 = Inr ''7d793037a0760186574b0282f2f435e7''"
  "get_file_hash example_files ''/data/missing'' 10240 = Inl (OSError (Some ''/data/missing''))"
  "get_file_hash example_files ''/data/broken'' 10240 = Inl (OSError None)"
  by (simp_all add: get_file_hash_Readable get_file_hash_CannotOpen get_file_hash_ReadFails
      example_file_at md5_hello md5_world)

lemma example_sort:
  "sort [''/data/c.txt'', ''/data/a.txt'', ''/data/b.txt'']
     = [''/data/a.txt'', ''/data/b.txt'', ''/data/c.txt'']"
  "sort [''/data/b.txt'', ''/data/c.txt'', ''/data/a.txt'']
     = [''/data/a.txt'', ''/data/b.txt'', ''/data/c.txt'']"
  "sort [''/data/missing'', ''/data/a.txt''] = [''/data/a.txt'', ''/data/missing'']"
  by code_simp+

lemma example_run:
  "main_after_scan example_files 0 [''/data/c.txt'', ''/data/a.txt'', ''/data/b.txt''] =
     ([PrintTotalFiles 3, PrintUniqueFiles 2, PrintDuplicateFiles 1,
       PrintDuplicatesByHash
         [(''5d41402abc4b2a76b9719d911017c592'', [''/data/a.txt'', ''/data/b.txt''])],
       PrintExit],
      None)"
  by (simp add: main_after_scan_def example_sort file_hashes_with_paths_def example_digests
      group_files_by_hash_def group_step_def dict_has_key_def duplicates_only_def)


lemma example_walk_A:
  "os_walk example_tree ''A'' = [(''A'', [''sub''], [''x.txt'']), (''A/sub'', [], [''y.txt''])]"
  by (simp add: os_walk_def example_tree_def os_path_join_def endswith_char_def)

lemma example_walk_data:
  "os_walk example_tree ''/data'' =
     [(''/data'', [''.git'', ''my_venv_backup''], [''a.txt'', ''b.txt'', ''c.txt'', ''.hidden'']),
      (''/data/.git'', [], [''config'']),
      (''/data/my_venv_backup'', [], [''z.txt''])]"
  by (simp add: os_walk_def example_tree_def os_path_join_def endswith_char_def)

lemma example_walk_reversed_data:
  "example_walk_reversed ''/data'' =
     [(''/data/my_venv_backup'', [], [''z.txt'']),
      (''/data/.git'', [], [''config'']),
      (''/data'', [''my_venv_backup'', ''.git''], [''.hidden'', ''c.txt'', ''b.txt'', ''a.txt''])]"
  by (simp add: example_walk_reversed_def example_walk_data)

lemma example_scan_A:
  "snd (get_subdirs_files (os_walk example_tree) False False [''A'']) = [''A/x.txt'']"
  "snd (get_subdirs_files (os_walk example_tree) True False [''A'']) = [''A/x.txt'', ''A/sub/y.txt'']"
  by (simp_all add: get_subdirs_files_def example_walk_A ignored_def IGNORE_LIST_def
      os_path_join_def endswith_char_def set_add_def)

lemma example_scan_data:
  "snd (get_subdirs_files (os_walk example_tree) True False [''/data''])
     = [''/data/a.txt'', ''/data/b.txt'', ''/data/c.txt'', ''/data/.git/config'']"
  "snd (get_subdirs_files (os_walk example_tree) True True [''/data''])
     = [''/data/a.txt'', ''/data/b.txt'', ''/data/c.txt'', ''/data/.hidden'', ''/data/.git/config'']"
  by (simp_all add: get_subdirs_files_def example_walk_data ignored_def IGNORE_LIST_def
      os_path_join_def endswith_char_def set_add_def)

lemma example_wf: "wf_tree (example_tree ''A'')" "wf_tree (example_tree ''/data'')"
  by (simp_all add: example_tree_def valid_name_def)

lemma example_names:
  "\<forall>d\<in>set [''/data'']. \<forall>(root', dirs', files')\<in>set (os_walk example_tree d).
     \<forall>f\<in>set files'. CHR ''/'' \<notin> set f"
  by (simp add: example_walk_data)

section \<open>The claims\<close>

subsection \<open>C1: the digest of a file\<close>




subsection \<open>C2: the counts\<close>

text \<open>
  Claim C2. In every run that reaches the counts, the total printed is the number of
  scanned paths, the number of unique files printed is the number of keys of the grouping
  table (the keys are distinct), the number of duplicates printed is the sum over the
  groups of the size of the group minus one, and the total is the sum of the other two.
\<close>

theorem count_identities:
  assumes "main_after_scan fs verbose scanned = (out, None)"
  shows "\<exists>files_by_hash.
           group_files_by_hash (file_hashes_with_paths fs (sort scanned)) = Inr files_by_hash
         \<and> distinct (map fst files_by_hash)
         \<and> (\<forall>n. PrintTotalFiles n \<in> set out \<longleftrightarrow> n = length scanned)
         \<and> (\<forall>n. PrintUniqueFiles n \<in> set out \<longleftrightarrow> n = length files_by_hash)
         \<and> (\<forall>d. PrintDuplicateFiles d \<in> set out
                \<longleftrightarrow> d = (\<Sum>g\<leftarrow>files_by_hash. int (length (snd g)) - 1))
         \<and> int (length scanned)
              = int (length files_by_hash) + (\<Sum>g\<leftarrow>files_by_hash. int (length (snd g)) - 1)"
proof -
  from assms obtain files_by_hash where
    grp: "group_files_by_hash (file_hashes_with_paths fs (sort scanned)) = Inr files_by_hash"
    by (rule main_after_scan_None)
  have total: "paths_total files_by_hash = length scanned"
    using grouping_total[OF grp] by simp
  have dup: "(\<Sum>g\<leftarrow>files_by_hash. int (length (snd g)) - 1)
               = int (length scanned) - int (length files_by_hash)"
    by (simp add: sum_minus_one total)
  have out: "out = (if verbose > 1 then [PrintFilePaths (sort scanned)] else [])
          @ [PrintTotalFiles (length scanned)]
          @ (if verbose > 1 then [PrintFilesByHash files_by_hash] else [])
          @ [PrintUniqueFiles (length files_by_hash),
             PrintDuplicateFiles (int (length scanned) - int (length files_by_hash)),
             PrintDuplicatesByHash (duplicates_only files_by_hash), PrintExit]"
    using main_after_scan_success[OF grp, of verbose] assms by simp
  have "distinct (map fst files_by_hash)"
    using grp by (rule grouping_distinct_keys)
  moreover have "\<forall>n. PrintTotalFiles n \<in> set out \<longleftrightarrow> n = length scanned"
    by (auto simp: out)
  moreover have "\<forall>n. PrintUniqueFiles n \<in> set out \<longleftrightarrow> n = length files_by_hash"
    by (auto simp: out)
  moreover have "\<forall>d. PrintDuplicateFiles d \<in> set out
      \<longleftrightarrow> d = (\<Sum>g\<leftarrow>files_by_hash. int (length (snd g)) - 1)"
    unfolding dup by (auto simp: out)
  moreover have "int (length scanned)
      = int (length files_by_hash) + (\<Sum>g\<leftarrow>files_by_hash. int (length (snd g)) - 1)"
    unfolding dup by simp
  ultimately show ?thesis
    using grp by blast
qed

theorem count_identities_witness:
  "main_after_scan example_files 0 [''/data/c.txt'', ''/data/a.txt'', ''/data/b.txt''] =
     ([PrintTotalFiles 3, PrintUniqueFiles 2, PrintDuplicateFiles 1,
       PrintDuplicatesByHash
         [(''5d41402abc4b2a76b9719d911017c592'', [''/data/a.txt'', ''/data/b.txt''])],
       PrintExit],
      None)
   \<and> (\<exists>files_by_hash.
         group_files_by_hash (file_hashes_with_paths example_files
           (sort [''/data/c.txt'', ''/data/a.txt'', ''/data/b.txt''])) = Inr files_by_hash
       \<and> int (length [''/data/c.txt'', ''/data/a.txt'', ''/data/b.txt''])
            = int (length files_by_hash) + (\<Sum>g\<leftarrow>files_by_hash. int (length (snd g)) - 1)
       \<and> (\<Sum>g\<leftarrow>files_by_hash. int (length (snd g)) - 1) = 1)"
proof -
  note run = example_run
  from count_identities[OF run] obtain files_by_hash where
    grp: "group_files_by_hash (file_hashes_with_paths example_files
           (sort [''/data/c.txt'', ''/data/a.txt'', ''/data/b.txt''])) = Inr files_by_hash"
    and dup: "\<forall>d. PrintDuplicateFiles d \<in> set [PrintTotalFiles 3, PrintUniqueFiles 2,
        PrintDuplicateFiles 1,
        PrintDuplicatesByHash
          [(''5d41402abc4b2a76b9719d911017c592'', [''/data/a.txt'', ''/data/b.txt''])],
        PrintExit]
      \<longleftrightarrow> d = (\<Sum>g\<leftarrow>files_by_hash. int (length (snd g)) - 1)"
    and tot: "int (length [''/data/c.txt'', ''/data/a.txt'', ''/data/b.txt''])
            = int (length files_by_hash) + (\<Sum>g\<leftarrow>files_by_hash. int (length (snd g)) - 1)"
    by blast
  from dup have "(\<Sum>g\<leftarrow>files_by_hash. int (length (snd g)) - 1) = 1"
    by simp
  with grp tot run show ?thesis by blast
qed


subsection \<open>C3: the duplicate report\<close>

text \<open>
  Claim C3. For every grouping table, the duplicate report is the table restricted to the
  keys whose list of paths is longer than 1: every group of the report has at least 2
  members, no group of at most 1 member is in it, and under each key the report holds what
  the table holds if that is more than one path, and nothing otherwise. A run that
  completes prints this report for the table it built.
\<close>

theorem duplicate_report_is_filtered_table:
  "set (duplicates_only t) = {g \<in> set t. 1 < length (snd g)}
   \<and> (\<forall>g\<in>set (duplicates_only t). 2 \<le> length (snd g))
   \<and> (\<forall>g\<in>set t. length (snd g) \<le> 1 \<longrightarrow> g \<notin> set (duplicates_only t))
   \<and> (distinct (map fst t) \<longrightarrow>
        (\<forall>h. map_of (duplicates_only t) h =
               (case map_of t h of None \<Rightarrow> None
                | Some paths \<Rightarrow> if 1 < length paths then Some paths else None)))
   \<and> (main_after_scan fs verbose scanned = (out, None) \<longrightarrow>
        (\<exists>files_by_hash.
            group_files_by_hash (file_hashes_with_paths fs (sort scanned)) = Inr files_by_hash
          \<and> (\<forall>r. PrintDuplicatesByHash r \<in> set out \<longleftrightarrow> r = duplicates_only files_by_hash)))"
proof -
  have mem: "set (duplicates_only t) = {g \<in> set t. 1 < length (snd g)}"
    by (auto simp: duplicates_only_def)
  have "main_after_scan fs verbose scanned = (out, None) \<longrightarrow>
        (\<exists>files_by_hash.
            group_files_by_hash (file_hashes_with_paths fs (sort scanned)) = Inr files_by_hash
          \<and> (\<forall>r. PrintDuplicatesByHash r \<in> set out \<longleftrightarrow> r = duplicates_only files_by_hash))"
  proof
    assume run: "main_after_scan fs verbose scanned = (out, None)"
    then obtain files_by_hash where
      grp: "group_files_by_hash (file_hashes_with_paths fs (sort scanned)) = Inr files_by_hash"
      by (rule main_after_scan_None)
    have "\<forall>r. PrintDuplicatesByHash r \<in> set out \<longleftrightarrow> r = duplicates_only files_by_hash"
      using main_after_scan_success[OF grp, of verbose] run by auto
    with grp show "\<exists>files_by_hash.
            group_files_by_hash (file_hashes_with_paths fs (sort scanned)) = Inr files_by_hash
          \<and> (\<forall>r. PrintDuplicatesByHash r \<in> set out \<longleftrightarrow> r = duplicates_only files_by_hash)"
      by blast
  qed
  moreover have "\<forall>g\<in>set (duplicates_only t). 2 \<le> length (snd g)"
    by (auto simp: mem)
  moreover have "\<forall>g\<in>set t. length (snd g) \<le> 1 \<longrightarrow> g \<notin> set (duplicates_only t)"
    by (auto simp: mem)
  ultimately show ?thesis
    using mem map_of_duplicates_only by blast
qed

theorem duplicate_report_is_filtered_table_witness:
  "distinct (map fst [(''5d41402abc4b2a76b9719d911017c592'', [''/data/a.txt'', ''/data/b.txt'']),
                      (''7d793037a0760186574b0282f2f435e7'', [''/data/c.txt''])])
   \<and> duplicates_only [(''5d41402abc4b2a76b9719d911017c592'', [''/data/a.txt'', ''/data/b.txt'']),
                       (''7d793037a0760186574b0282f2f435e7'', [''/data/c.txt''])]
       = [(''5d41402abc4b2a76b9719d911017c592'', [''/data/a.txt'', ''/data/b.txt''])]
   \<and> (''7d793037a0760186574b0282f2f435e7'', [''/data/c.txt''])
       \<notin> set (duplicates_only
                 [(''5d41402abc4b2a76b9719d911017c592'', [''/data/a.txt'', ''/data/b.txt'']),
                  (''7d793037a0760186574b0282f2f435e7'', [''/data/c.txt''])])
   \<and> map_of (duplicates_only
                [(''5d41402abc4b2a76b9719d911017c592'', [''/data/a.txt'', ''/data/b.txt'']),
                 (''7d793037a0760186574b0282f2f435e7'', [''/data/c.txt''])])
         ''7d793037a0760186574b0282f2f435e7'' = None
   \<and> main_after_scan example_files 0 [''/data/c.txt'', ''/data/a.txt'', ''/data/b.txt''] =
       ([PrintTotalFiles 3, PrintUniqueFiles 2, PrintDuplicateFiles 1,
         PrintDuplicatesByHash
           [(''5d41402abc4b2a76b9719d911017c592'', [''/data/a.txt'', ''/data/b.txt''])],
         PrintExit],
        None)
   \<and> (\<exists>files_by_hash.
         group_files_by_hash (file_hashes_with_paths example_files
           (sort [''/data/c.txt'', ''/data/a.txt'', ''/data/b.txt''])) = Inr files_by_hash
       \<and> duplicates_only files_by_hash
           = [(''5d41402abc4b2a76b9719d911017c592'', [''/data/a.txt'', ''/data/b.txt''])])"
proof -
  let ?t = "[(''5d41402abc4b2a76b9719d911017c592'', [''/data/a.txt'', ''/data/b.txt'']),
             (''7d793037a0760186574b0282f2f435e7'', [''/data/c.txt''])]"
  let ?out = "[PrintTotalFiles 3, PrintUniqueFiles 2, PrintDuplicateFiles 1,
         PrintDuplicatesByHash
           [(''5d41402abc4b2a76b9719d911017c592'', [''/data/a.txt'', ''/data/b.txt''])],
         PrintExit]"
  note T = duplicate_report_is_filtered_table[of ?t example_files 0
      "[''/data/c.txt'', ''/data/a.txt'', ''/data/b.txt'']" ?out]
  have dist: "distinct (map fst ?t)" by simp
  have single: "(''7d793037a0760186574b0282f2f435e7'', [''/data/c.txt'']) \<in> set ?t
      \<and> length (snd (''7d793037a0760186574b0282f2f435e7'', [''/data/c.txt''])) \<le> 1"
    by simp
  from T single have "(''7d793037a0760186574b0282f2f435e7'', [''/data/c.txt''])
       \<notin> set (duplicates_only ?t)"
    by blast
  moreover from T dist have "map_of (duplicates_only ?t) ''7d793037a0760186574b0282f2f435e7''
      = (case map_of ?t ''7d793037a0760186574b0282f2f435e7'' of None \<Rightarrow> None
         | Some paths \<Rightarrow> if 1 < length paths then Some paths else None)"
    by blast
  then have "map_of (duplicates_only ?t) ''7d793037a0760186574b0282f2f435e7'' = None"
    by simp
  moreover from T example_run obtain files_by_hash where
    "group_files_by_hash (file_hashes_with_paths example_files
           (sort [''/data/c.txt'', ''/data/a.txt'', ''/data/b.txt''])) = Inr files_by_hash"
    "\<forall>r. PrintDuplicatesByHash r \<in> set ?out \<longleftrightarrow> r = duplicates_only files_by_hash"
    by blast
  then have "\<exists>files_by_hash.
         group_files_by_hash (file_hashes_with_paths example_files
           (sort [''/data/c.txt'', ''/data/a.txt'', ''/data/b.txt''])) = Inr files_by_hash
       \<and> duplicates_only files_by_hash
           = [(''5d41402abc4b2a76b9719d911017c592'', [''/data/a.txt'', ''/data/b.txt''])]"
    by auto
  moreover have "duplicates_only ?t
       = [(''5d41402abc4b2a76b9719d911017c592'', [''/data/a.txt'', ''/data/b.txt''])]"
    by (simp add: duplicates_only_def)
  ultimately show ?thesis
    using dist example_run by blast
qed


subsection \<open>C4: determinism\<close>

text \<open>
  Claim C4. For a fixed set of scanned paths with fixed contents, the grouping table (keys,
  paths under each key, and their order) and everything \<open>main\<close> prints do not depend on
  the order in which the set yields the paths, since \<open>main\<close> sorts them before hashing.
  The set is given by any two lists without repetition that have the same elements. Two
  walks that find the same files in the same directories, in any order, give the same
  run of \<open>main\<close>.
\<close>

theorem grouping_is_deterministic:
  assumes "distinct xs" and "distinct ys" and "set xs = set ys"
    and "\<forall>d\<in>set directories. \<forall>root f.
           (\<exists>dirs files. (root, dirs, files) \<in> set (walk1 d) \<and> f \<in> set files)
             \<longleftrightarrow> (\<exists>dirs files. (root, dirs, files) \<in> set (walk2 d) \<and> f \<in> set files)"
  shows "group_files_by_hash (file_hashes_with_paths fs (sort xs))
           = group_files_by_hash (file_hashes_with_paths fs (sort ys))
       \<and> main_after_scan fs verbose xs = main_after_scan fs verbose ys
       \<and> main walk1 fs recursive include_hidden verbose directories
           = main walk2 fs recursive include_hidden verbose directories"
proof -
  have srt: "sort xs = sort ys" if "distinct xs" "distinct ys" "set xs = set ys"
    for xs ys :: "string list"
    using that by (intro sorted_distinct_set_unique) simp_all
  have run: "main_after_scan fs verbose xs = main_after_scan fs verbose ys"
    if "distinct xs" "distinct ys" "set xs = set ys" for xs ys
    using srt[OF that] by (simp add: main_after_scan_def)
  have "main walk1 fs recursive include_hidden verbose directories
           = main walk2 fs recursive include_hidden verbose directories"
    unfolding main_def
    by (intro run scan_distinct scan_set_cong assms(4))
  with srt[OF assms(1-3)] run[OF assms(1-3)] show ?thesis by simp
qed

theorem grouping_is_deterministic_witness:
  "distinct [''/data/c.txt'', ''/data/a.txt'', ''/data/b.txt'']
   \<and> distinct [''/data/b.txt'', ''/data/c.txt'', ''/data/a.txt'']
   \<and> set [''/data/c.txt'', ''/data/a.txt'', ''/data/b.txt'']
       = set [''/data/b.txt'', ''/data/c.txt'', ''/data/a.txt'']
   \<and> snd (get_subdirs_files (os_walk example_tree) False False [''/data''])
       = [''/data/a.txt'', ''/data/b.txt'', ''/data/c.txt'']
   \<and> snd (get_subdirs_files example_walk_reversed False False [''/data''])
       = [''/data/c.txt'', ''/data/b.txt'', ''/data/a.txt'']
   \<and> group_files_by_hash (file_hashes_with_paths example_files
         (sort [''/data/c.txt'', ''/data/a.txt'', ''/data/b.txt'']))
       = group_files_by_hash (file_hashes_with_paths example_files
           (sort [''/data/b.txt'', ''/data/c.txt'', ''/data/a.txt'']))
   \<and> main_after_scan example_files 2 [''/data/c.txt'', ''/data/a.txt'', ''/data/b.txt'']
       = main_after_scan example_files 2 [''/data/b.txt'', ''/data/c.txt'', ''/data/a.txt'']
   \<and> main (os_walk example_tree) example_files False False 2 [''/data'']
       = main example_walk_reversed example_files False False 2 [''/data'']"
proof -
  have d1: "distinct [''/data/c.txt'', ''/data/a.txt'', ''/data/b.txt'']"
    and d2: "distinct [''/data/b.txt'', ''/data/c.txt'', ''/data/a.txt'']"
    by simp_all
  have s: "set [''/data/c.txt'', ''/data/a.txt'', ''/data/b.txt'']
       = set [''/data/b.txt'', ''/data/c.txt'', ''/data/a.txt'']"
    by auto
  have w: "\<forall>d\<in>set [''/data'']. \<forall>root f.
           (\<exists>dirs files. (root, dirs, files) \<in> set (os_walk example_tree d) \<and> f \<in> set files)
             \<longleftrightarrow> (\<exists>dirs files. (root, dirs, files) \<in> set (example_walk_reversed d) \<and> f \<in> set files)"
    by (auto simp: example_walk_data example_walk_reversed_data)
  have sc1: "snd (get_subdirs_files (os_walk example_tree) False False [''/data''])
       = [''/data/a.txt'', ''/data/b.txt'', ''/data/c.txt'']"
    by (simp add: get_subdirs_files_def example_walk_data ignored_def IGNORE_LIST_def
        os_path_join_def endswith_char_def set_add_def)
  have sc2: "snd (get_subdirs_files example_walk_reversed False False [''/data''])
       = [''/data/c.txt'', ''/data/b.txt'', ''/data/a.txt'']"
    by (simp add: get_subdirs_files_def example_walk_reversed_data ignored_def IGNORE_LIST_def
        os_path_join_def endswith_char_def set_add_def)
  from grouping_is_deterministic[OF d1 d2 s w, of example_files 2 False False] d1 d2 s sc1 sc2
  show ?thesis by blast
qed

subsection \<open>C5: recursion\<close>

text \<open>
  Claim C5. On directory trees whose entries have valid names: without \<open>recursive\<close>, every
  path the scanner returns is a file directly inside one of the root directories, and for
  a single root no file of any nested directory is returned; with \<open>recursive\<close>, the files
  of every directory of the walk, nested or not, are returned when they pass the other two
  filters. For the root \<^verbatim>\<open>A\<close> with \<^verbatim>\<open>A/x.txt\<close> and \<^verbatim>\<open>A/sub/y.txt\<close>, the scan
  without \<open>recursive\<close> returns only \<^verbatim>\<open>A/x.txt\<close>, the scan with it returns both.
\<close>

theorem non_recursive_scan_is_top_level_only:
  assumes "\<forall>d\<in>set directories. wf_tree (tree d)" and "wf_tree (tree directory)"
  shows "(\<forall>p\<in>set (snd (get_subdirs_files (os_walk tree) False includeHidden directories)).
            \<exists>d\<in>set directories. \<exists>subdirs files file.
              tree d = Dir subdirs files \<and> file \<in> set files \<and> p = os_path_join d file)
       \<and> (\<forall>root dirs files file.
            (root, dirs, files) \<in> set (os_walk tree directory) \<and> root \<noteq> directory
              \<and> file \<in> set files \<longrightarrow>
            os_path_join root file
              \<notin> set (snd (get_subdirs_files (os_walk tree) False includeHidden [directory])))
       \<and> (\<forall>d\<in>set directories. \<forall>(root, dirs, files)\<in>set (os_walk tree d). \<forall>file\<in>set files.
            (includeHidden \<or> \<not> startswith file ''.'') \<and> \<not> ignored root \<longrightarrow>
            os_path_join root file
              \<in> set (snd (get_subdirs_files (os_walk tree) True includeHidden directories)))"
proof (intro conjI)
  show "\<forall>p\<in>set (snd (get_subdirs_files (os_walk tree) False includeHidden directories)).
            \<exists>d\<in>set directories. \<exists>subdirs files file.
              tree d = Dir subdirs files \<and> file \<in> set files \<and> p = os_path_join d file"
  proof
    fix p
    assume "p \<in> set (snd (get_subdirs_files (os_walk tree) False includeHidden directories))"
    then obtain d ds files f where d: "d \<in> set directories"
      and e: "(d, ds, files) \<in> set (os_walk tree d)" and f: "f \<in> set files"
      and p: "p = os_path_join d f"
      unfolding scan_iff by blast
    from os_walk_top[of tree d ds files] e assms(1) d obtain subs where "tree d = Dir subs files"
      by blast
    with d f p show "\<exists>d\<in>set directories. \<exists>subdirs files file.
              tree d = Dir subdirs files \<and> file \<in> set files \<and> p = os_path_join d file"
      by blast
  qed
next
  show "\<forall>root dirs files file.
            (root, dirs, files) \<in> set (os_walk tree directory) \<and> root \<noteq> directory
              \<and> file \<in> set files \<longrightarrow>
            os_path_join root file
              \<notin> set (snd (get_subdirs_files (os_walk tree) False includeHidden [directory]))"
  proof (intro allI impI notI)
    fix root dirs files fname
    assume a: "(root, dirs, files) \<in> set (os_walk tree directory) \<and> root \<noteq> directory
              \<and> fname \<in> set files"
      and "os_path_join root fname
              \<in> set (snd (get_subdirs_files (os_walk tree) False includeHidden [directory]))"
    then obtain ds' files' f where e': "(directory, ds', files') \<in> set (os_walk tree directory)"
      and f: "f \<in> set files'" and eq: "os_path_join root fname = os_path_join directory f"
      unfolding scan_iff by auto
    have "valid_name fname"
      using walk_tree_files_valid[OF assms(2), of root dirs files directory fname] a
      by (simp add: os_walk_def)
    moreover have "valid_name f"
      using walk_tree_files_valid[OF assms(2), of directory ds' files' directory f] e' f
      by (simp add: os_walk_def)
    ultimately have pre: "dir_prefix root = dir_prefix directory"
      using join_eq[OF eq] by (simp add: valid_name_def)
    from os_walk_nested[of tree directory root dirs files] assms(2) a obtain name y where
      n: "valid_name name" "root = dir_prefix directory @ name @ y"
      by blast
    have "length (dir_prefix directory) < length root"
      using nested_root_longer[OF n(1), of directory y] n(2) by simp
    also have "\<dots> \<le> length (dir_prefix root)"
      by (rule length_dir_prefix)
    finally show False
      using pre by simp
  qed
next
  show "\<forall>d\<in>set directories. \<forall>(root, dirs, files)\<in>set (os_walk tree d). \<forall>file\<in>set files.
            (includeHidden \<or> \<not> startswith file ''.'') \<and> \<not> ignored root \<longrightarrow>
            os_path_join root file
              \<in> set (snd (get_subdirs_files (os_walk tree) True includeHidden directories))"
    unfolding scan_iff by blast
qed

theorem non_recursive_scan_is_top_level_only_witness:
  "wf_tree (example_tree ''A'')
   \<and> (''A/sub'', [], [''y.txt'']) \<in> set (os_walk example_tree ''A'')
   \<and> snd (get_subdirs_files (os_walk example_tree) False False [''A'']) = [''A/x.txt'']
   \<and> ''A/sub/y.txt'' \<notin> set (snd (get_subdirs_files (os_walk example_tree) False False [''A'']))
   \<and> ''A/x.txt'' \<in> set (snd (get_subdirs_files (os_walk example_tree) True False [''A'']))
   \<and> ''A/sub/y.txt'' \<in> set (snd (get_subdirs_files (os_walk example_tree) True False [''A'']))"
proof -
  have wfs: "\<forall>d\<in>set [''A'']. wf_tree (example_tree d)"
    using example_wf(1) by simp
  note T = non_recursive_scan_is_top_level_only[OF wfs example_wf(1), of False]
  have sub: "(''A/sub'', [], [''y.txt'']) \<in> set (os_walk example_tree ''A'')"
    and top: "(''A'', [''sub''], [''x.txt'']) \<in> set (os_walk example_tree ''A'')"
    by (simp_all add: example_walk_A)
  have j: "os_path_join ''A/sub'' ''y.txt'' = ''A/sub/y.txt''"
    "os_path_join ''A'' ''x.txt'' = ''A/x.txt''"
    by (simp_all add: os_path_join_def endswith_char_def)
  have ok: "\<not> startswith ''y.txt'' ''.''" "\<not> startswith ''x.txt'' ''.''"
    "\<not> ignored ''A/sub''" "\<not> ignored ''A''"
    by (simp_all add: ignored_def IGNORE_LIST_def)
  have ne: "''A/sub'' \<noteq> ''A''" "''y.txt'' \<in> set [''y.txt'']"
    by simp_all
  from T sub ne have "os_path_join ''A/sub'' ''y.txt''
      \<notin> set (snd (get_subdirs_files (os_walk example_tree) False False [''A'']))"
    by blast
  then have out: "''A/sub/y.txt''
      \<notin> set (snd (get_subdirs_files (os_walk example_tree) False False [''A'']))"
    by (simp only: j simp_thms)
  from T sub ok have "os_path_join ''A/sub'' ''y.txt''
      \<in> set (snd (get_subdirs_files (os_walk example_tree) True False [''A'']))"
    by fastforce
  then have in1: "''A/sub/y.txt''
      \<in> set (snd (get_subdirs_files (os_walk example_tree) True False [''A'']))"
    by (simp only: j simp_thms)
  from T top ok have "os_path_join ''A'' ''x.txt''
      \<in> set (snd (get_subdirs_files (os_walk example_tree) True False [''A'']))"
    by fastforce
  then have in2: "''A/x.txt''
      \<in> set (snd (get_subdirs_files (os_walk example_tree) True False [''A'']))"
    by (simp only: j simp_thms)
  from out in1 in2 sub example_wf(1) example_scan_A(1) show ?thesis
    by blast
qed


subsection \<open>C6: the ignore list\<close>

text \<open>
  Claim C6. A file of a walked directory whose path, as \<^verbatim>\<open>os.walk\<close> yields it, contains
  \<^verbatim>\<open>node_modules\<close>, \<^verbatim>\<open>venv\<close> or \<^verbatim>\<open>__pycache__\<close> anywhere as a substring is not
  in the result of the scanner, whatever \<open>recursive\<close> and \<open>includeHidden\<close> are. (File names
  have no separator, so no other directory of the walk can give the same path.)
\<close>

theorem ignored_directories_are_excluded:
  assumes "v \<in> set IGNORE_LIST" and "root = a @ v @ b"
    and "directory \<in> set directories" and "(root, dirs, files) \<in> set (walk directory)"
    and "file \<in> set files"
    and "\<forall>d\<in>set directories. \<forall>(root', dirs', files')\<in>set (walk d).
           \<forall>f\<in>set files'. CHR ''/'' \<notin> set f"
  shows "os_path_join root file
           \<notin> set (snd (get_subdirs_files walk recursive includeHidden directories))"
proof
  assume "os_path_join root file
           \<in> set (snd (get_subdirs_files walk recursive includeHidden directories))"
  from scan_not_member[OF assms(6,3,4,5) this]
  obtain root' where "dir_prefix root' = dir_prefix root" "\<not> ignored root'"
    by metis
  then have "\<not> ignored root"
    using ignored_dir_prefix by metis
  moreover have "ignored root"
    using assms(1,2) unfolding ignored_iff by blast
  ultimately show False by contradiction
qed

theorem ignored_directories_are_excluded_witness:
  "''venv'' \<in> set IGNORE_LIST
   \<and> ''/data/my_venv_backup'' = ''/data/my_'' @ ''venv'' @ ''_backup''
   \<and> (''/data/my_venv_backup'', [], [''z.txt'']) \<in> set (os_walk example_tree ''/data'')
   \<and> ''/data/my_venv_backup/z.txt''
       \<notin> set (snd (get_subdirs_files (os_walk example_tree) True True [''/data'']))"
proof -
  have v: "''venv'' \<in> set IGNORE_LIST" by (simp add: IGNORE_LIST_def)
  have r: "''/data/my_venv_backup'' = ''/data/my_'' @ ''venv'' @ ''_backup''" by simp
  have d: "''/data'' \<in> set [''/data'']" by simp
  have e: "(''/data/my_venv_backup'', [], [''z.txt'']) \<in> set (os_walk example_tree ''/data'')"
    by (simp add: example_walk_data)
  have f: "''z.txt'' \<in> set [''z.txt'']" by simp
  have j: "os_path_join ''/data/my_venv_backup'' ''z.txt'' = ''/data/my_venv_backup/z.txt''"
    by (simp add: os_path_join_def endswith_char_def)
  from ignored_directories_are_excluded[OF v r d e f example_names, of True True]
  have "''/data/my_venv_backup/z.txt''
       \<notin> set (snd (get_subdirs_files (os_walk example_tree) True True [''/data'']))"
    by (simp only: j simp_thms)
  with v r e show ?thesis by blast
qed


subsection \<open>C7: hidden files\<close>

text \<open>
  Claim C7. A file whose name starts with a dot is not in the result of the scanner when
  \<open>includeHidden\<close> is false; when \<open>includeHidden\<close> is true it is in the result if the
  other two filters pass (its directory is not ignored, and it is the root or \<open>recursive\<close>
  is true).
\<close>

theorem hidden_files_follow_includeHidden:
  assumes "startswith file ''.''"
    and "directory \<in> set directories" and "(root, dirs, files) \<in> set (walk directory)"
    and "file \<in> set files"
    and "\<forall>d\<in>set directories. \<forall>(root', dirs', files')\<in>set (walk d).
           \<forall>f\<in>set files'. CHR ''/'' \<notin> set f"
  shows "os_path_join root file \<notin> set (snd (get_subdirs_files walk recursive False directories))
       \<and> ((recursive \<or> directory = root) \<and> \<not> ignored root \<longrightarrow>
            os_path_join root file \<in> set (snd (get_subdirs_files walk recursive True directories)))"
proof
  show "os_path_join root file \<notin> set (snd (get_subdirs_files walk recursive False directories))"
  proof
    assume "os_path_join root file \<in> set (snd (get_subdirs_files walk recursive False directories))"
    from scan_not_member[OF assms(5,2,3,4) this] have "\<not> startswith file ''.''"
      by metis
    with assms(1) show False by contradiction
  qed
  show "(recursive \<or> directory = root) \<and> \<not> ignored root \<longrightarrow>
      os_path_join root file \<in> set (snd (get_subdirs_files walk recursive True directories))"
    unfolding scan_iff using assms(2,3,4) by blast
qed

theorem hidden_files_follow_includeHidden_witness:
  "startswith ''.hidden'' ''.''
   \<and> (''/data'', [''.git'', ''my_venv_backup''], [''a.txt'', ''b.txt'', ''c.txt'', ''.hidden''])
       \<in> set (os_walk example_tree ''/data'')
   \<and> ''/data/.hidden'' \<notin> set (snd (get_subdirs_files (os_walk example_tree) True False [''/data'']))
   \<and> ''/data/.hidden'' \<in> set (snd (get_subdirs_files (os_walk example_tree) True True [''/data'']))"
proof -
  have h: "startswith ''.hidden'' ''.''" by simp
  have d: "''/data'' \<in> set [''/data'']" by simp
  have e: "(''/data'', [''.git'', ''my_venv_backup''], [''a.txt'', ''b.txt'', ''c.txt'', ''.hidden''])
       \<in> set (os_walk example_tree ''/data'')"
    by (simp add: example_walk_data)
  have f: "''.hidden'' \<in> set [''a.txt'', ''b.txt'', ''c.txt'', ''.hidden'']" by simp
  have j: "os_path_join ''/data'' ''.hidden'' = ''/data/.hidden''"
    by (simp add: os_path_join_def endswith_char_def)
  have ok: "\<not> ignored ''/data''"
    by (simp add: ignored_def IGNORE_LIST_def)
  from hidden_files_follow_includeHidden[OF h d e f example_names, of True] ok
  have "''/data/.hidden'' \<notin> set (snd (get_subdirs_files (os_walk example_tree) True False [''/data'']))
     \<and> ''/data/.hidden'' \<in> set (snd (get_subdirs_files (os_walk example_tree) True True [''/data'']))"
    by (simp only: j simp_thms)
  with h e show ?thesis by blast
qed


subsection \<open>C8: the paths returned\<close>

text \<open>
  Claim C8, as stated, says that every returned path is absolute. The scanner never makes
  a path absolute: it joins names to the root as it was given, so a relative root gives
  relative paths. The theorem is the claim as amended: on trees with valid names,
  the result holds no path twice, and every returned path is one of the root arguments
  followed by at least one more character, absolute exactly when that root argument is.
  After its witness comes the counterexample to the claim as stated.
\<close>

theorem scanned_paths_extend_their_root:
  assumes "\<forall>d\<in>set directories. wf_tree (tree d)"
  shows "distinct (snd (get_subdirs_files (os_walk tree) recursive includeHidden directories))
       \<and> (\<forall>p\<in>set (snd (get_subdirs_files (os_walk tree) recursive includeHidden directories)).
            \<exists>d\<in>set directories. \<exists>rest. rest \<noteq> [] \<and> p = d @ rest
              \<and> (os_path_isabs p \<longleftrightarrow> os_path_isabs d))"
proof (intro conjI ballI)
  show "distinct (snd (get_subdirs_files (os_walk tree) recursive includeHidden directories))"
    by (rule scan_distinct)
next
  fix p
  assume "p \<in> set (snd (get_subdirs_files (os_walk tree) recursive includeHidden directories))"
  then obtain d root ds files f where d: "d \<in> set directories"
    and e: "(root, ds, files) \<in> set (os_walk tree d)" and f: "f \<in> set files"
    and p: "p = os_path_join root f"
    unfolding scan_iff by blast
  have wf: "wf_tree (tree d)" using assms d by blast
  have vf: "valid_name f"
    using walk_tree_files_valid[OF wf e[unfolded os_walk_def] f] .
  then have pf: "p = dir_prefix root @ f" and fne: "f \<noteq> []" and fs: "CHR ''/'' \<notin> set f"
    by (simp_all add: p join_slash_free valid_name_def)
  obtain s where s: "dir_prefix root = root @ s"
    using dir_prefix_append by blast
  have "\<exists>x. root = d @ x \<and> (d = [] \<longrightarrow> \<not> startswith (x @ s @ f) ''/'')"
  proof (cases "root = d")
    case True
    have "d = [] \<longrightarrow> \<not> startswith (s @ f) ''/''"
      using s fs True by (auto simp: dir_prefix_def startswith_slash)
    with True show ?thesis by simp
  next
    case False
    from os_walk_nested[OF wf e False] obtain name y where
      n: "valid_name name" "root = dir_prefix d @ name @ y" by blast
    obtain s' where s': "dir_prefix d = d @ s'"
      using dir_prefix_append by blast
    have "d = [] \<longrightarrow> \<not> startswith ((s' @ name @ y) @ s @ f) ''/''"
    proof
      assume "d = []"
      then have "s' = []" using s' by (simp add: dir_prefix_def)
      moreover obtain c cs where "name = c # cs" "c \<noteq> CHR ''/''"
        using n(1) by (cases name) (auto simp: valid_name_def)
      ultimately show "\<not> startswith ((s' @ name @ y) @ s @ f) ''/''"
        by simp
    qed
    moreover have "root = d @ (s' @ name @ y)"
      using n(2) s' by simp
    ultimately show ?thesis by blast
  qed
  then obtain x where x: "root = d @ x" "d = [] \<longrightarrow> \<not> startswith (x @ s @ f) ''/''"
    by blast
  have eq: "p = d @ (x @ s @ f)"
    using pf s x(1) by simp
  have "os_path_isabs p \<longleftrightarrow> os_path_isabs d"
  proof (cases d)
    case Nil
    with x(2) eq show ?thesis by (simp add: os_path_isabs_def)
  next
    case (Cons c cs)
    with eq show ?thesis by (simp add: os_path_isabs_def)
  qed
  moreover have "x @ s @ f \<noteq> []" using fne by simp
  ultimately show "\<exists>d\<in>set directories. \<exists>rest. rest \<noteq> [] \<and> p = d @ rest
              \<and> (os_path_isabs p \<longleftrightarrow> os_path_isabs d)"
    using d eq by blast
qed

theorem scanned_paths_extend_their_root_witness:
  "wf_tree (example_tree ''A'')
   \<and> distinct (snd (get_subdirs_files (os_walk example_tree) True False [''A'', ''A'']))
   \<and> ''A/sub/y.txt'' \<in> set (snd (get_subdirs_files (os_walk example_tree) True False [''A'', ''A'']))
   \<and> (\<exists>d\<in>set [''A'', ''A'']. \<exists>rest. rest \<noteq> [] \<and> ''A/sub/y.txt'' = d @ rest
          \<and> (os_path_isabs ''A/sub/y.txt'' \<longleftrightarrow> os_path_isabs d))"
proof -
  have wfs: "\<forall>d\<in>set [''A'', ''A'']. wf_tree (example_tree d)"
    using example_wf(1) by simp
  note T = scanned_paths_extend_their_root[OF wfs, of True False]
  have m: "''A/sub/y.txt'' \<in> set (snd (get_subdirs_files (os_walk example_tree) True False [''A'', ''A'']))"
    by (simp add: get_subdirs_files_def example_walk_A ignored_def IGNORE_LIST_def
        os_path_join_def endswith_char_def set_add_def)
  from T m example_wf(1) show ?thesis by blast
qed

theorem relative_root_gives_relative_paths:
  "''A/x.txt'' \<in> set (snd (get_subdirs_files (os_walk example_tree) False False [''A'']))
   \<and> \<not> os_path_isabs ''A/x.txt''"
  by (simp add: example_scan_A os_path_isabs_def)


subsection \<open>C9: a file that cannot be opened or read\<close>

text \<open>
  Claim C9, as stated, says that nothing of the report, and no count, is produced when a
  file cannot be opened or read, and that the error names the failing path. \<open>main\<close>
  prints the total number of files (and, when \<open>verbose\<close> is more than 1, the sorted paths)
  before it hashes the first file, and the \<^verbatim>\<open>OSError\<close> of a failing \<^verbatim>\<open>f.read\<close> has no
  file name. The theorem is the claim as amended: if some scanned file cannot be opened or
  cannot be read to its end, the run ends with an exception, and what was printed is the
  total (after the paths when \<open>verbose > 1\<close>) and nothing else: no grouping table, no
  count of unique or duplicate files, no report. When a chunk of 10240 bytes can be
  allocated, the exception is the one \<^verbatim>\<open>get_file_hash\<close> fails with on the first such
  path in sorted order: an \<^verbatim>\<open>OSError\<close> that names the path when the file cannot be
  opened, and one with no file name when a read of the opened file fails. After its
  witness comes the counterexample to the claim as stated.
\<close>

theorem unreadable_file_aborts_run:
  assumes "p \<in> set scanned" and "\<forall>content. file_at fs p \<noteq> Readable content"
  shows "(\<exists>e. main_after_scan fs verbose scanned =
                ((if verbose > 1 then [PrintFilePaths (sort scanned)] else [])
                   @ [PrintTotalFiles (length scanned)],
                 Some e))
       \<and> (10240 \<le> max_alloc fs \<longrightarrow>
            (\<exists>q\<in>set scanned.
                (\<forall>content. file_at fs q \<noteq> Readable content)
              \<and> (\<forall>q'\<in>set scanned. (\<forall>content. file_at fs q' \<noteq> Readable content) \<longrightarrow> q \<le> q')
              \<and> get_file_hash fs q 10240 =
                  Inl (if file_at fs q = CannotOpen then OSError (Some q) else OSError None)
              \<and> main_after_scan fs verbose scanned =
                  ((if verbose > 1 then [PrintFilePaths (sort scanned)] else [])
                     @ [PrintTotalFiles (length scanned)],
                   Some (if file_at fs q = CannotOpen then OSError (Some q)
                         else OSError None))))"
proof (intro conjI impI)
  have "p \<in> set (sort scanned)"
    using assms(1) by simp
  moreover obtain e0 where "get_file_hash fs p 10240 = Inl e0"
    using get_file_hash_not_Readable[OF _ assms(2), of 10240] by auto
  ultimately have "Inl e0 \<in> set (file_hashes_with_paths fs (sort scanned))"
    unfolding file_hashes_with_paths_def by force
  then obtain e where "group_files_by_hash (file_hashes_with_paths fs (sort scanned)) = Inl e"
    unfolding group_files_by_hash_def using group_loop_raises by blast
  from main_after_scan_failure[OF this]
  show "\<exists>e. main_after_scan fs verbose scanned =
                ((if verbose > 1 then [PrintFilePaths (sort scanned)] else [])
                   @ [PrintTotalFiles (length scanned)],
                 Some e)"
    by blast
next
  assume mem: "10240 \<le> max_alloc fs"
  have ex: "\<exists>x\<in>set (sort scanned). \<forall>content. file_at fs x \<noteq> Readable content"
    using assms by auto
  from split_list_first_prop[OF ex]
  obtain good q rest where split: "sort scanned = good @ q # rest"
    and q: "\<forall>content. file_at fs q \<noteq> Readable content"
    and good: "\<forall>x\<in>set good. \<exists>c. file_at fs x = Readable c"
    by blast
  have srt: "sorted (good @ q # rest)"
    using sorted_sort[of scanned] by (simp only: split)
  have elems: "set scanned = set good \<union> insert q (set rest)"
    using set_sort[of "\<lambda>x. x" scanned] by (simp add: split)
  have least: "\<forall>q'\<in>set scanned. (\<forall>content. file_at fs q' \<noteq> Readable content) \<longrightarrow> q \<le> q'"
    using srt good by (auto simp: elems sorted_append)
  have err: "get_file_hash fs q 10240 =
      Inl (if file_at fs q = CannotOpen then OSError (Some q) else OSError None)"
  proof (cases "file_at fs q")
    case CannotOpen
    then show ?thesis by (simp add: get_file_hash_CannotOpen)
  next
    case (Readable content)
    with q show ?thesis by simp
  next
    case (ReadFails content)
    then have "get_file_hash fs q 10240 = Inl (OSError None)"
      using mem by (intro get_file_hash_ReadFails) simp_all
    with ReadFails show ?thesis by simp
  qed
  obtain pairs where pairs: "file_hashes_with_paths fs good = map Inr pairs"
    using fhwp_readable[OF mem good] by blast
  have "group_files_by_hash (file_hashes_with_paths fs (sort scanned)) =
      Inl (if file_at fs q = CannotOpen then OSError (Some q) else OSError None)"
    by (simp only: split fhwp_append fhwp_raises[OF err] pairs group_files_by_hash_def
        group_loop_abort)
  from main_after_scan_failure[OF this] q least err
  show "\<exists>q\<in>set scanned.
                (\<forall>content. file_at fs q \<noteq> Readable content)
              \<and> (\<forall>q'\<in>set scanned. (\<forall>content. file_at fs q' \<noteq> Readable content) \<longrightarrow> q \<le> q')
              \<and> get_file_hash fs q 10240 =
                  Inl (if file_at fs q = CannotOpen then OSError (Some q) else OSError None)
              \<and> main_after_scan fs verbose scanned =
                  ((if verbose > 1 then [PrintFilePaths (sort scanned)] else [])
                     @ [PrintTotalFiles (length scanned)],
                   Some (if file_at fs q = CannotOpen then OSError (Some q)
                         else OSError None))"
    unfolding elems by blast
qed

theorem unreadable_file_aborts_run_witness:
  "''/data/broken'' \<in> set [''/data/missing'', ''/data/broken'', ''/data/a.txt'']
   \<and> file_at example_files ''/data/broken'' = ReadFails hello
   \<and> 10240 \<le> max_alloc example_files
   \<and> (\<exists>e. main_after_scan example_files 0 [''/data/missing'', ''/data/broken'', ''/data/a.txt'']
         = ([PrintTotalFiles 3], Some e))
   \<and> (\<exists>q\<in>set [''/data/missing'', ''/data/broken'', ''/data/a.txt''].
         get_file_hash example_files q 10240 =
           Inl (if file_at example_files q = CannotOpen then OSError (Some q) else OSError None)
       \<and> main_after_scan example_files 0 [''/data/missing'', ''/data/broken'', ''/data/a.txt''] =
            ([PrintTotalFiles 3],
             Some (if file_at example_files q = CannotOpen then OSError (Some q)
                   else OSError None)))"
proof -
  have m: "''/data/broken'' \<in> set [''/data/missing'', ''/data/broken'', ''/data/a.txt'']"
    by simp
  have n: "\<forall>content. file_at example_files ''/data/broken'' \<noteq> Readable content"
    by (simp add: example_file_at)
  have l: "10240 \<le> max_alloc example_files"
    by (simp add: example_file_at)
  from unreadable_file_aborts_run[of "''/data/broken''"
      "[''/data/missing'', ''/data/broken'', ''/data/a.txt'']" example_files 0] m n l
  have "(\<exists>e. main_after_scan example_files 0 [''/data/missing'', ''/data/broken'', ''/data/a.txt'']
         = ([PrintTotalFiles 3], Some e))
   \<and> (\<exists>q\<in>set [''/data/missing'', ''/data/broken'', ''/data/a.txt''].
         get_file_hash example_files q 10240 =
           Inl (if file_at example_files q = CannotOpen then OSError (Some q) else OSError None)
       \<and> main_after_scan example_files 0 [''/data/missing'', ''/data/broken'', ''/data/a.txt''] =
            ([PrintTotalFiles 3],
             Some (if file_at example_files q = CannotOpen then OSError (Some q)
                   else OSError None)))"
    by auto
  with m l example_file_at(4) show ?thesis by blast
qed

theorem run_aborts_after_total_count:
  "main_after_scan example_files 0 [''/data/missing'', ''/data/a.txt'']
     = ([PrintTotalFiles 2], Some (OSError (Some ''/data/missing'')))
   \<and> PrintTotalFiles 2
       \<in> set (fst (main_after_scan example_files 0 [''/data/missing'', ''/data/a.txt'']))
   \<and> file_at example_files ''/data/broken'' = ReadFails hello
   \<and> get_file_hash example_files ''/data/broken'' 10240 = Inl (OSError None)
   \<and> main_after_scan example_files 0 [''/data/broken'']
       = ([PrintTotalFiles 1], Some (OSError None))"
  by (simp add: main_after_scan_def example_sort file_hashes_with_paths_def example_digests
      group_files_by_hash_def group_step_def dict_has_key_def example_file_at)

subsection \<open>C10: files inside hidden directories\<close>

text \<open>
  Claim C10. Only the name of the file is tested for a leading dot, never the directories
  above it: with \<open>includeHidden\<close> false and \<open>recursive\<close> true, a file whose name does not
  start with a dot and whose directory is not ignored is in the result of the scanner,
  whatever the path of its directory is; in particular a file of a subdirectory of the
  root whose name starts with a dot.
\<close>

theorem files_in_hidden_directories_are_scanned:
  "(directory \<in> set directories \<and> (root, dirs, files) \<in> set (walk directory)
      \<and> file \<in> set files \<and> \<not> startswith file ''.'' \<and> \<not> ignored root
      \<longrightarrow> os_path_join root file \<in> set (snd (get_subdirs_files walk True False directories)))
   \<and> (directory \<in> set directories \<and> tree directory = Dir subdirs top_files
      \<and> (name, Dir subdirs' files) \<in> set subdirs \<and> startswith name ''.''
      \<and> file \<in> set files \<and> \<not> startswith file ''.''
      \<and> \<not> ignored (os_path_join directory name)
      \<longrightarrow> os_path_join (os_path_join directory name) file
            \<in> set (snd (get_subdirs_files (os_walk tree) True False directories)))"
proof (intro conjI impI)
  assume "directory \<in> set directories \<and> (root, dirs, files) \<in> set (walk directory)
      \<and> file \<in> set files \<and> \<not> startswith file ''.'' \<and> \<not> ignored root"
  then show "os_path_join root file \<in> set (snd (get_subdirs_files walk True False directories))"
    unfolding scan_iff by blast
next
  assume a: "directory \<in> set directories \<and> tree directory = Dir subdirs top_files
      \<and> (name, Dir subdirs' files) \<in> set subdirs \<and> startswith name ''.''
      \<and> file \<in> set files \<and> \<not> startswith file ''.''
      \<and> \<not> ignored (os_path_join directory name)"
  then have "(os_path_join directory name, map fst subdirs', files)
      \<in> set (walk_tree (os_path_join directory (fst (name, Dir subdirs' files)))
                (snd (name, Dir subdirs' files)))"
    by simp
  with a have "(os_path_join directory name, map fst subdirs', files) \<in> set (os_walk tree directory)"
    unfolding os_walk_def by (simp del: fst_conv snd_conv) blast
  with a show "os_path_join (os_path_join directory name) file
            \<in> set (snd (get_subdirs_files (os_walk tree) True False directories))"
    unfolding scan_iff by blast
qed

theorem files_in_hidden_directories_are_scanned_witness:
  "example_tree ''/data'' =
     Dir [(''.git'', Dir [] [''config'']), (''my_venv_backup'', Dir [] [''z.txt''])]
         [''a.txt'', ''b.txt'', ''c.txt'', ''.hidden'']
   \<and> startswith ''.git'' ''.'' \<and> \<not> startswith ''config'' ''.''
   \<and> \<not> ignored (os_path_join ''/data'' ''.git'')
   \<and> ''/data/.git/config''
       \<in> set (snd (get_subdirs_files (os_walk example_tree) True False [''/data'']))"
proof -
  have t: "example_tree ''/data'' =
     Dir [(''.git'', Dir [] [''config'']), (''my_venv_backup'', Dir [] [''z.txt''])]
         [''a.txt'', ''b.txt'', ''c.txt'', ''.hidden'']"
    by (simp add: example_tree_def)
  have j: "os_path_join ''/data'' ''.git'' = ''/data/.git''"
    "os_path_join ''/data/.git'' ''config'' = ''/data/.git/config''"
    by (simp_all add: os_path_join_def endswith_char_def)
  have ok: "startswith ''.git'' ''.''" "\<not> startswith ''config'' ''.''"
    "\<not> ignored (os_path_join ''/data'' ''.git'')"
    by (simp_all add: j ignored_def IGNORE_LIST_def)
  have m: "''/data'' \<in> set [''/data'']"
    "(''.git'', Dir [] [''config''])
       \<in> set [(''.git'', Dir [] [''config'']), (''my_venv_backup'', Dir [] [''z.txt''])]"
    "''config'' \<in> set [''config'']"
    by simp_all
  note T = files_in_hidden_directories_are_scanned[of "''/data''" "[''/data'']" _ _
      "[''config'']" _ "''config''" example_tree
      "[(''.git'', Dir [] [''config'']), (''my_venv_backup'', Dir [] [''z.txt''])]"
      "[''a.txt'', ''b.txt'', ''c.txt'', ''.hidden'']" "''.git''" "[]"]
  from T t ok m have "os_path_join (os_path_join ''/data'' ''.git'') ''config''
       \<in> set (snd (get_subdirs_files (os_walk example_tree) True False [''/data'']))"
    by blast
  then have "''/data/.git/config''
       \<in> set (snd (get_subdirs_files (os_walk example_tree) True False [''/data'']))"
    by (simp only: j simp_thms)
  with t ok show ?thesis by blast
qed


end
